theory Spec2Isabelle
  imports Complex_Main "HOL-Library.Word" "HOL-Library.Log_Nat"
begin

section \<open>Conventions of the embedding\<close>

text \<open>
  The development embeds the client side of the cache-invalidation library (the Ticl):
  the smearing of delays, the \<open>OperationScheduler\<close>, the \<open>Throttle\<close> with the
  \<open>DeterministicScheduler\<close> of its test, and the orchestrator
  \<open>InvalidationClientImpl\<close>.

  \<^item> C++ member names end in an underscore (\<open>smear_fraction_\<close>); an Isabelle name cannot,
    so the underscore is dropped (\<open>smear_fraction\<close>). A name that clashes with another
    class's member or with a HOL constant gets a prefix or suffix.
  \<^item> \<open>CHECK(c)\<close> aborts the process when \<open>c\<close> is false: the model returns
    \<open>Inl CheckFailed\<close> and leaves the state as it was.
  \<^item> \<open>Time\<close> and \<open>TimeDelta\<close> are whole numbers of microseconds
    (``Internal time value is in microseconds'', invalidation-client-impl.cc), modelled as
    \<open>int\<close>. The header time.h is not among the sources; the conversions are the ones its
    callers rely on (\<open>Time::kMicrosecondsPerMillisecond\<close>). The code holds them in an
    \<open>int64\<close>; where a theorem gives a time computed from a product, it also gives that
    the time is in the range of \<open>int64\<close>.
  \<^item> A \<open>double\<close> is an IEEE 754 binary64 number: a real number that
    \<open>round_to_double\<close> leaves as it is. Every arithmetic operation on doubles is the
    exact operation followed by \<open>round_to_double\<close> (round to nearest, ties to even), a
    decimal literal \<open>c\<close> of the source is \<open>round_to_double c\<close>. Infinities and NaN are
    not modelled: they do not arise in the functions below as long as the number drawn
    is in \<open>[0, 1]\<close>, where every intermediate result is below \<open>2\<^sup>6\<^sup>5\<close>.
  \<^item> The conversion of a double to \<open>int64\<close> discards the fractional part; it is
    undefined when the result is not an \<open>int64\<close>, and the model then returns
    \<open>Inl ConversionOutOfRange\<close>.
  \<^item> \<open>Random::RandDouble()\<close> (random.h, not among the sources) is an input: every
    function that draws a random number takes the number drawn as an argument.
\<close>

datatype error = CheckFailed | IndexOutOfRange | ConversionOutOfRange

text \<open>Sequencing of calls that may fail: the first failure ends the run.\<close>

definition and_then :: "error + 'a \<Rightarrow> ('a \<Rightarrow> error + 'b) \<Rightarrow> error + 'b" where
  "and_then r f = (case r of Inl e \<Rightarrow> Inl e | Inr x \<Rightarrow> f x)"

type_synonym TimeDelta = int
type_synonym Time = int

text \<open>Integer division of C++ truncates toward zero.\<close>

definition tdiv :: "int \<Rightarrow> int \<Rightarrow> int" where
  "tdiv a b = sgn a * sgn b * (\<bar>a\<bar> div \<bar>b\<bar>)"

definition kMicrosecondsPerMillisecond :: int where
  "kMicrosecondsPerMillisecond = 1000"

definition InMicroseconds :: "TimeDelta \<Rightarrow> int" where
  "InMicroseconds d = d"

definition FromMicroseconds :: "int \<Rightarrow> TimeDelta" where
  "FromMicroseconds us = us"

definition InMilliseconds :: "TimeDelta \<Rightarrow> int" where
  "InMilliseconds d = tdiv d kMicrosecondsPerMillisecond"

definition FromMilliseconds :: "int \<Rightarrow> TimeDelta" where
  "FromMilliseconds ms = ms * kMicrosecondsPerMillisecond"

definition FromSeconds :: "int \<Rightarrow> TimeDelta" where
  "FromSeconds s = s * 1000 * kMicrosecondsPerMillisecond"

definition FromMinutes :: "int \<Rightarrow> TimeDelta" where
  "FromMinutes m = m * 60 * 1000 * kMicrosecondsPerMillisecond"

definition FromHours :: "int \<Rightarrow> TimeDelta" where
  "FromHours h = h * 60 * 60 * 1000 * kMicrosecondsPerMillisecond"

section \<open>Double-precision arithmetic\<close>

text \<open>Rounding of a real number to the nearest whole number, a tie going to the even
  one.\<close>

definition round_half_even :: "real \<Rightarrow> int" where
  "round_half_even y =
     (let n = \<lfloor>y\<rfloor>; r = y - of_int n
      in if r < 1 / 2 then n else if 1 / 2 < r then n + 1 else if even n then n else n + 1)"

text \<open>The binary exponent of a number \<open>x \<noteq> 0\<close>: the \<open>e\<close> with
  \<open>2\<^sup>e \<le> \<bar>x\<bar> < 2\<^sup>e\<^sup>+\<^sup>1\<close>, computed from the number of bits of the whole part of
  \<open>\<bar>x\<bar>\<close> or of \<open>1 / \<bar>x\<bar>\<close>.\<close>

definition binary_exponent :: "real \<Rightarrow> int" where
  "binary_exponent x =
     (if 1 \<le> \<bar>x\<bar> then bitlen \<lfloor>\<bar>x\<bar>\<rfloor> - 1 else - bitlen (\<lceil>1 / \<bar>x\<bar>\<rceil> - 1))"

text \<open>The distance between neighbouring doubles around \<open>x\<close>: 52 binary places below
  the exponent of \<open>x\<close>, and \<open>2\<^sup>-\<^sup>1\<^sup>0\<^sup>7\<^sup>4\<close> for the subnormal numbers (below
  \<open>2\<^sup>-\<^sup>1\<^sup>0\<^sup>2\<^sup>2\<close>).\<close>

definition ulp :: "real \<Rightarrow> real" where
  "ulp x = 2 powi (max (binary_exponent x) (- 1022) - 52)"

text \<open>The double nearest to a real number, a tie going to the double whose last bit is
  zero.\<close>

definition round_to_double :: "real \<Rightarrow> real" where
  "round_to_double x =
     (if x = 0 then 0
      else sgn x * (of_int (round_half_even (\<bar>x\<bar> / ulp x)) * ulp x))"

definition is_double :: "real \<Rightarrow> bool" where
  "is_double x = (round_to_double x = x)"

definition double_add :: "real \<Rightarrow> real \<Rightarrow> real" where
  "double_add x y = round_to_double (x + y)"

definition double_sub :: "real \<Rightarrow> real \<Rightarrow> real" where
  "double_sub x y = round_to_double (x - y)"

definition double_mul :: "real \<Rightarrow> real \<Rightarrow> real" where
  "double_mul x y = round_to_double (x * y)"

definition double_div :: "real \<Rightarrow> real \<Rightarrow> real" where
  "double_div x y = round_to_double (x / y)"

text \<open>The conversion of an \<open>int\<close> or \<open>int64\<close> to \<open>double\<close> (exact up to \<open>2\<^sup>5\<^sup>3\<close>).\<close>

definition double_of_int :: "int \<Rightarrow> real" where
  "double_of_int n = round_to_double (of_int n)"

text \<open>\<open>static_cast<int64>(x)\<close> of a double, and the implicit conversion of a double
  argument to an \<open>int64\<close> parameter: the fractional part is discarded. The behaviour is
  undefined when the truncated value is not an \<open>int64\<close>.\<close>

definition static_cast_int64 :: "real \<Rightarrow> error + int" where
  "static_cast_int64 x =
     (let n = (if 0 \<le> x then \<lfloor>x\<rfloor> else \<lceil>x\<rceil>)
      in if - (2 ^ 63) \<le> n \<and> n < 2 ^ 63 then Inr n else Inl ConversionOutOfRange)"


section \<open>Smearing of delays\<close>

text \<open>\<open>InvalidationClientImpl::SmearDelay(base_delay, smear_factor, random)\<close>,
  invalidation-client-impl.cc. The third argument is the value of
  \<open>random->RandDouble()\<close>.\<close>

definition SmearDelay :: "TimeDelta \<Rightarrow> real \<Rightarrow> real \<Rightarrow> error + TimeDelta" where
  "SmearDelay base_delay smear_factor RandDouble =
     (if \<not> smear_factor \<ge> 0 then Inl CheckFailed
      else if \<not> smear_factor \<le> 1 then Inl CheckFailed
      else
        let normalized_rand = RandDouble;
            applied_smear =
              double_mul smear_factor (double_sub (double_mul 2 normalized_rand) 1)
        in and_then
             (static_cast_int64
                (double_mul (double_of_int (InMicroseconds base_delay))
                   (double_add applied_smear 1)))
             (\<lambda>us. Inr (FromMicroseconds us)))"

text \<open>\<open>class Smearer\<close>, v2/smearer.h. The generator it owns is left out of the record:
  \<open>GetSmearedDelay\<close> takes the number drawn.\<close>

record Smearer =
  smear_fraction :: real

definition kDefaultSmearPercent :: int where
  "kDefaultSmearPercent = 20"

definition Smearer_default :: Smearer where
  "Smearer_default =
     \<lparr> smear_fraction = double_div (double_of_int kDefaultSmearPercent) 100 \<rparr>"

definition Smearer_percent :: "int \<Rightarrow> error + Smearer" where
  "Smearer_percent smear_percent =
     (if smear_percent > 0 \<and> smear_percent \<le> 100
      then Inr \<lparr> smear_fraction = double_div (double_of_int smear_percent) 100 \<rparr>
      else Inl CheckFailed)"

definition GetSmearedDelay :: "Smearer \<Rightarrow> real \<Rightarrow> TimeDelta \<Rightarrow> error + TimeDelta" where
  "GetSmearedDelay smearer RandDouble delay =
     (let smear_factor =
            double_mul (double_sub (double_mul 2 RandDouble) 1) (smear_fraction smearer)
      in and_then
           (static_cast_int64
              (double_mul (double_of_int (InMilliseconds delay)) (double_add 1 smear_factor)))
           (\<lambda>ms. Inr (FromMilliseconds ms)))"


section \<open>OperationScheduler\<close>

text \<open>v2/operation-scheduler.h and v2/operation-scheduler.cc. An operation is a
  \<open>Closure*\<close>: the scheduler only uses the identity of the pointer, a number here, with
  \<open>NULL\<close> the number zero.\<close>

type_synonym Closure = nat

definition NULL :: Closure where
  "NULL = 0"

record OperationScheduleInfo =
  delay :: TimeDelta
  name :: string
  has_been_scheduled :: bool

definition OperationScheduleInfo_init :: "TimeDelta \<Rightarrow> string \<Rightarrow> OperationScheduleInfo" where
  "OperationScheduleInfo_init init_delay op_name =
     \<lparr> delay = init_delay, name = op_name, has_been_scheduled = False \<rparr>"

text \<open>The task that \<open>Schedule\<close> hands to the external scheduler:
  \<open>NewPermanentCallback(&OperationScheduler::RunAndClearScheduled, operation, op_info)\<close>.
  \<open>op_info\<close> points to the entry of \<open>operation\<close> in the map \<open>operations_\<close> (entries are
  never erased), so the task is determined by \<open>operation\<close>.\<close>

datatype ScheduledTask = RunAndClearScheduled_task Closure

text \<open>The state of an \<open>OperationScheduler\<close>, together with what it has asked of
  \<open>scheduler_\<close>: \<open>scheduler_tasks\<close> holds the calls \<open>scheduler_->Schedule(delay, task)\<close>
  whose task has not run yet.\<close>

record OperationScheduler =
  operations :: "Closure \<rightharpoonup> OperationScheduleInfo"
  smearer :: Smearer
  scheduler_tasks :: "(TimeDelta \<times> ScheduledTask) list"

definition OperationScheduler_init :: OperationScheduler where
  "OperationScheduler_init =
     \<lparr> operations = Map.empty, smearer = Smearer_default, scheduler_tasks = [] \<rparr>"

definition SetOperation ::
  "TimeDelta \<Rightarrow> Closure \<Rightarrow> string \<Rightarrow> OperationScheduler \<Rightarrow> error + OperationScheduler" where
  "SetOperation delay' operation name' s =
     (if \<not> operations s operation = None then Inl CheckFailed
      else if \<not> delay' > FromMilliseconds 0 then Inl CheckFailed
      else if \<not> operation \<noteq> NULL then Inl CheckFailed
      else Inr (s\<lparr> operations :=
                  (operations s)(operation \<mapsto> OperationScheduleInfo_init delay' name') \<rparr>))"

definition ChangeDelayForTest ::
  "Closure \<Rightarrow> TimeDelta \<Rightarrow> OperationScheduler \<Rightarrow> error + OperationScheduler" where
  "ChangeDelayForTest operation delay' s =
     (case operations s operation of
        None \<Rightarrow> Inl CheckFailed
      | Some op_info \<Rightarrow>
          Inr (s\<lparr> operations := (operations s)(operation \<mapsto> op_info\<lparr> delay := delay' \<rparr>) \<rparr>))"

text \<open>\<open>OperationScheduler::Schedule(operation)\<close>; the first argument is the number the
  smearer draws.\<close>

definition Schedule :: "real \<Rightarrow> Closure \<Rightarrow> OperationScheduler \<Rightarrow> error + OperationScheduler" where
  "Schedule RandDouble operation s =
     (case operations s operation of
        None \<Rightarrow> Inl CheckFailed
      | Some op_info \<Rightarrow>
          if \<not> has_been_scheduled op_info then
            and_then (GetSmearedDelay (smearer s) RandDouble (delay op_info))
              (\<lambda>delay'.
                 Inr (s\<lparr> operations :=
                           (operations s)(operation \<mapsto> op_info\<lparr> has_been_scheduled := True \<rparr>),
                         scheduler_tasks :=
                           scheduler_tasks s @ [(delay', RunAndClearScheduled_task operation)] \<rparr>))
          else Inr s)"

text \<open>\<open>closure->Run()\<close>. What an operation does is its owner's business; towards the
  \<open>OperationScheduler\<close> it can only ask for operations to be scheduled, so the body of a
  closure is given as the list of \<open>Schedule\<close> calls it makes, each with the number the
  smearer draws for it.\<close>

fun Closure_Run :: "(Closure \<times> real) list \<Rightarrow> OperationScheduler \<Rightarrow> error + OperationScheduler" where
  "Closure_Run [] s = Inr s"
| "Closure_Run ((operation, RandDouble) # schedule_calls) s =
     and_then (Schedule RandDouble operation s) (Closure_Run schedule_calls)"

text \<open>\<open>OperationScheduler::RunAndClearScheduled(closure, info)\<close>, with \<open>info\<close> the entry
  of \<open>closure\<close>: \<open>info->has_been_scheduled = false; closure->Run();\<close>\<close>

definition RunAndClearScheduled ::
  "(Closure \<Rightarrow> (Closure \<times> real) list) \<Rightarrow> Closure \<Rightarrow> OperationScheduler
     \<Rightarrow> error + OperationScheduler" where
  "RunAndClearScheduled body closure s =
     (let s' = s\<lparr> operations := (operations s)(closure :=
                  map_option (\<lambda>info. info\<lparr> has_been_scheduled := False \<rparr>)
                    (operations s closure)) \<rparr>
      in Closure_Run (body closure) s')"

text \<open>The external scheduler runs a task it holds, once: the task leaves its queue and
  runs. Which task runs, and when, is the scheduler's choice (the index \<open>i\<close>).\<close>

definition take_task :: "nat \<Rightarrow> OperationScheduler \<Rightarrow> OperationScheduler" where
  "take_task i s =
     s\<lparr> scheduler_tasks := take i (scheduler_tasks s) @ drop (Suc i) (scheduler_tasks s) \<rparr>"

definition scheduler_run_task ::
  "(Closure \<Rightarrow> (Closure \<times> real) list) \<Rightarrow> nat \<Rightarrow> OperationScheduler \<Rightarrow> error + OperationScheduler" where
  "scheduler_run_task body i s =
     (if i < length (scheduler_tasks s) then
        (case snd (scheduler_tasks s ! i) of
           RunAndClearScheduled_task closure \<Rightarrow>
             RunAndClearScheduled body closure (take_task i s))
      else Inr s)"

text \<open>A run of an \<open>OperationScheduler\<close>: calls of its public functions and tasks run by
  the external scheduler, in any order. A failed \<open>CHECK\<close> ends the run.\<close>

datatype Action =
    Do_SetOperation TimeDelta Closure string
  | Do_ChangeDelayForTest Closure TimeDelta
  | Do_Schedule real Closure
  | Scheduler_runs nat

fun do_action ::
  "(Closure \<Rightarrow> (Closure \<times> real) list) \<Rightarrow> Action \<Rightarrow> OperationScheduler \<Rightarrow> error + OperationScheduler" where
  "do_action body (Do_SetOperation d operation n) s = SetOperation d operation n s"
| "do_action body (Do_ChangeDelayForTest operation d) s = ChangeDelayForTest operation d s"
| "do_action body (Do_Schedule r operation) s = Schedule r operation s"
| "do_action body (Scheduler_runs i) s = scheduler_run_task body i s"

fun do_actions ::
  "(Closure \<Rightarrow> (Closure \<times> real) list) \<Rightarrow> Action list \<Rightarrow> OperationScheduler \<Rightarrow> error + OperationScheduler" where
  "do_actions body [] s = Inr s"
| "do_actions body (a # as) s = and_then (do_action body a s) (do_actions body as)"

text \<open>The number of future executions of an operation that are outstanding, and its
  pending flag.\<close>

definition outstanding :: "Closure \<Rightarrow> OperationScheduler \<Rightarrow> nat" where
  "outstanding operation s =
     length (filter (\<lambda>t. snd t = RunAndClearScheduled_task operation) (scheduler_tasks s))"

definition pending :: "Closure \<Rightarrow> OperationScheduler \<Rightarrow> bool" where
  "pending operation s =
     (case operations s operation of None \<Rightarrow> False | Some op_info \<Rightarrow> has_been_scheduled op_info)"

definition one_task_per_pending :: "OperationScheduler \<Rightarrow> bool" where
  "one_task_per_pending s =
     (\<forall>operation. outstanding operation s = (if pending operation s then 1 else 0))"

section \<open>Throttle and the scheduler of its test\<close>

text \<open>v2/throttle.h declares the \<open>Throttle\<close> and defines \<open>RetryFire\<close>;
  v2/test/deterministic-scheduler.h is the scheduler of the tests and
  v2/test/throttle_test.cc the test fixture. The file that defines the constructor of the
  \<open>Throttle\<close> and \<open>Fire\<close> is not among the sources.\<close>

record RateLimit =
  window_size :: TimeDelta
  count :: nat

text \<open>The closures of the throttle test: the task the throttle schedules, and the two
  listeners of the fixture.\<close>

datatype ScheduledClosure = RetryFire_closure

datatype ListenerClosure = IncrementCounter_closure | IncrementAndCheckRateLimits_closure

record TaskEntry =
  time :: Time
  immediate :: bool
  entry_id :: nat
  task :: ScheduledClosure

text \<open>\<open>TaskEntry::operator<\<close>: the priority queue returns the largest element first.\<close>

definition TaskEntry_less :: "TaskEntry \<Rightarrow> TaskEntry \<Rightarrow> bool" where
  "TaskEntry_less a b = (time a > time b \<or> (time a = time b \<and> entry_id a > entry_id b))"

text \<open>\<open>std::priority_queue\<close>: the entries as a list, \<open>top()\<close> a largest one.\<close>

fun top_entry :: "TaskEntry list \<Rightarrow> TaskEntry option" where
  "top_entry [] = None"
| "top_entry (e # es) =
     (case top_entry es of
        None \<Rightarrow> Some e
      | Some best \<Rightarrow> if TaskEntry_less e best then Some best else Some e)"

record DeterministicScheduler =
  current_time :: Time
  current_id :: nat
  started :: bool
  stopped :: bool
  running_internal :: bool
  work_queue :: "TaskEntry list"

definition DeterministicScheduler_new :: DeterministicScheduler where
  "DeterministicScheduler_new =
     \<lparr> current_time = 0, current_id = 0, started = False, stopped = False,
       running_internal = False, work_queue = [] \<rparr>"

definition GetCurrentTime :: "DeterministicScheduler \<Rightarrow> Time" where
  "GetCurrentTime sch = current_time sch"

definition StartScheduler :: "DeterministicScheduler \<Rightarrow> DeterministicScheduler" where
  "StartScheduler sch = sch\<lparr> started := True \<rparr>"

text \<open>\<open>DeterministicScheduler::Schedule(delay, task)\<close>. Every closure here is made by
  \<open>NewPermanentCallback\<close>, so \<open>IsCallbackRepeatable\<close> holds.\<close>

definition DeterministicScheduler_Schedule ::
  "TimeDelta \<Rightarrow> ScheduledClosure \<Rightarrow> DeterministicScheduler \<Rightarrow> error + DeterministicScheduler" where
  "DeterministicScheduler_Schedule delay' task' sch =
     (if \<not> started sch then Inl CheckFailed
      else if \<not> stopped sch then
        Inr (sch\<lparr> work_queue := work_queue sch @
                     [\<lparr> time = GetCurrentTime sch + delay', immediate = False,
                        entry_id = current_id sch, task = task' \<rparr>],
                  current_id := current_id sch + 1 \<rparr>)
      else Inr sch)"

definition SetTime :: "Time \<Rightarrow> DeterministicScheduler \<Rightarrow> DeterministicScheduler" where
  "SetTime new_time sch = sch\<lparr> current_time := new_time \<rparr>"

definition ModifyTime :: "TimeDelta \<Rightarrow> DeterministicScheduler \<Rightarrow> DeterministicScheduler" where
  "ModifyTime delta_time sch = sch\<lparr> current_time := current_time sch + delta_time \<rparr>"

record Throttle =
  rate_limits :: "RateLimit list"
  listener :: ListenerClosure
  timer_scheduled :: bool
  recent_event_times :: "Time list"
  max_recent_events :: nat

text \<open>The fixture \<open>ThrottleTest\<close> with the scheduler and the throttle of a test.
  \<open>assertion_failed\<close> records that an \<open>ASSERT_TRUE\<close> of the listener did not hold.
  \<open>listener_runs\<close> keeps the times at which the throttle ran its listener; no function
  reads it, the properties of the throttle are stated on it.\<close>

record ThrottleTest =
  call_count :: int
  start_time :: Time
  last_call_time :: Time
  assertion_failed :: bool
  scheduler :: DeterministicScheduler
  throttle :: Throttle
  listener_runs :: "Time list"

definition kMessagesPerSecond :: int where
  "kMessagesPerSecond = 1"

definition kMessagesPerMinute :: int where
  "kMessagesPerMinute = 6"

definition IncrementCounter :: "ThrottleTest \<Rightarrow> ThrottleTest" where
  "IncrementCounter w = w\<lparr> call_count := call_count w + 1 \<rparr>"

text \<open>\<open>ASSERT_TRUE\<close> records the failure and returns from the function.\<close>

definition IncrementAndCheckRateLimits :: "ThrottleTest \<Rightarrow> ThrottleTest" where
  "IncrementAndCheckRateLimits w0 =
     (let w1 = w0\<lparr> call_count := call_count w0 + 1 \<rparr>;
          now = GetCurrentTime (scheduler w1)
      in if \<not> now - last_call_time w1 \<ge> FromSeconds 1 then w1\<lparr> assertion_failed := True \<rparr>
         else
           let w2 = w1\<lparr> last_call_time := now \<rparr>;
               min_time = start_time w2
                 + FromMinutes (tdiv (call_count w2 - 1) kMessagesPerMinute)
           in if \<not> min_time \<le> now then w2\<lparr> assertion_failed := True \<rparr> else w2)"

fun ListenerClosure_Run :: "ListenerClosure \<Rightarrow> ThrottleTest \<Rightarrow> ThrottleTest" where
  "ListenerClosure_Run IncrementCounter_closure w = IncrementCounter w"
| "ListenerClosure_Run IncrementAndCheckRateLimits_closure w = IncrementAndCheckRateLimits w"

text \<open>Modelled from the spec: the constructor of \<open>Throttle\<close> is not among the sources.
  Section 4.3: the throttle ``maintains a ring buffer of the last \<open>K = max(count)\<close> firing
  times''; no timer is armed at first.\<close>

definition Throttle_new :: "RateLimit list \<Rightarrow> ListenerClosure \<Rightarrow> Throttle" where
  "Throttle_new rate_limits' listener' =
     \<lparr> rate_limits = rate_limits', listener = listener', timer_scheduled = False,
       recent_event_times = [], max_recent_events = foldr max (map count rate_limits') 0 \<rparr>"

text \<open>Modelled from the spec: \<open>Throttle::Fire\<close> is not among the sources. Section 4.3,
  step 1: ``Drop timestamps older than the largest window.''\<close>

definition largest_window :: "RateLimit list \<Rightarrow> TimeDelta option" where
  "largest_window limits =
     (case limits of
        [] \<Rightarrow> None
      | l # ls \<Rightarrow> Some (foldr max (map window_size ls) (window_size l)))"

definition drop_old :: "RateLimit list \<Rightarrow> Time \<Rightarrow> Time list \<Rightarrow> Time list" where
  "drop_old limits now recent =
     (case largest_window limits of
        None \<Rightarrow> recent
      | Some w \<Rightarrow> filter (\<lambda>t. \<not> now - t > w) recent)"

text \<open>Modelled from the spec: \<open>Throttle::Fire\<close> is not among the sources. Section 4.3,
  step 2: ``For each limit \<open>(w, c)\<close>: if \<open>recent.size() \<ge> c\<close> and
  \<open>now - recent[size-c] < w\<close>, compute the earliest legal instant
  \<open>t* = recent[size-c] + w\<close> and record the maximum such \<open>t*\<close> across limits.'' The
  result is \<open>None\<close> when no limit is violated. With \<open>c = 0\<close> the index \<open>size - c\<close> is out
  of range.\<close>

definition earliest_legal :: "Time \<Rightarrow> Time list \<Rightarrow> RateLimit \<Rightarrow> error + Time option" where
  "earliest_legal now recent limit =
     (let size' = length recent; c = count limit; w = window_size limit
      in if size' \<ge> c then
           (if \<not> size' - c < size' then Inl IndexOutOfRange
            else if now - recent ! (size' - c) < w then Inr (Some (recent ! (size' - c) + w))
            else Inr None)
         else Inr None)"

fun latest_earliest_legal :: "Time \<Rightarrow> Time list \<Rightarrow> RateLimit list \<Rightarrow> error + Time option" where
  "latest_earliest_legal now recent [] = Inr None"
| "latest_earliest_legal now recent (limit # limits) =
     and_then (earliest_legal now recent limit) (\<lambda>t1.
     and_then (latest_earliest_legal now recent limits) (\<lambda>t2.
       Inr (case (t1, t2) of
              (None, t) \<Rightarrow> t
            | (Some a, None) \<Rightarrow> Some a
            | (Some a, Some b) \<Rightarrow> Some (max a b))))"

text \<open>Modelled from the spec: \<open>Throttle::Fire\<close> is not among the sources. Section 4.3,
  steps 1 to 4: ``3. If no limit is violated, append \<open>now\<close> to recent and invoke the
  listener synchronously. 4. Otherwise, if no deferred fire is already armed, schedule
  \<open>RetryFire\<close> at \<open>t* - now\<close>; else drop (no queueing of excess fires).'' The buffer keeps
  the last \<open>K\<close> times.\<close>

definition Fire :: "ThrottleTest \<Rightarrow> error + ThrottleTest" where
  "Fire w =
     (let now = GetCurrentTime (scheduler w);
          th = throttle w;
          recent = drop_old (rate_limits th) now (recent_event_times th)
      in and_then (latest_earliest_legal now recent (rate_limits th)) (\<lambda>violated.
           case violated of
             None \<Rightarrow>
               let recent1 = recent @ [now];
                   recent2 = drop (length recent1 - max_recent_events th) recent1
               in Inr (ListenerClosure_Run (listener th)
                         (w\<lparr> throttle := th\<lparr> recent_event_times := recent2 \<rparr>,
                             listener_runs := listener_runs w @ [now] \<rparr>))
           | Some t \<Rightarrow>
               if \<not> timer_scheduled th then
                 and_then (DeterministicScheduler_Schedule (t - now) RetryFire_closure (scheduler w))
                   (\<lambda>sch. Inr (w\<lparr> throttle := th\<lparr> recent_event_times := recent,
                                                  timer_scheduled := True \<rparr>,
                                   scheduler := sch \<rparr>))
               else Inr (w\<lparr> throttle := th\<lparr> recent_event_times := recent \<rparr> \<rparr>)))"

text \<open>\<open>Throttle::RetryFire\<close>, v2/throttle.h.\<close>

definition RetryFire :: "ThrottleTest \<Rightarrow> error + ThrottleTest" where
  "RetryFire w = Fire (w\<lparr> throttle := (throttle w)\<lparr> timer_scheduled := False \<rparr> \<rparr>)"

fun ScheduledClosure_Run :: "ScheduledClosure \<Rightarrow> ThrottleTest \<Rightarrow> error + ThrottleTest" where
  "ScheduledClosure_Run RetryFire_closure w = RetryFire w"

text \<open>\<open>DeterministicScheduler::RunNextTask\<close>: the result says whether a task was run.\<close>

definition RunNextTask :: "ThrottleTest \<Rightarrow> error + (bool \<times> ThrottleTest)" where
  "RunNextTask w =
     (case top_entry (work_queue (scheduler w)) of
        None \<Rightarrow> Inr (False, w)
      | Some top_elt \<Rightarrow>
          if time top_elt \<le> GetCurrentTime (scheduler w) then
            and_then
              (ScheduledClosure_Run (task top_elt)
                 (w\<lparr> scheduler := (scheduler w)
                        \<lparr> work_queue := remove1 top_elt (work_queue (scheduler w)) \<rparr> \<rparr>))
              (\<lambda>w'. Inr (True, w'))
          else Inr (False, w))"

text \<open>The loop of \<open>DeterministicScheduler::RunReadyTasks\<close>:
  \<open>while (RunNextTask()) continue;\<close>. It ends because a task that runs here leaves the
  queue and \<open>Fire\<close> only schedules a task for a later time: the number of tasks that are
  ready goes down.\<close>

definition ready_tasks :: "ThrottleTest \<Rightarrow> nat" where
  "ready_tasks w =
     length (filter (\<lambda>e. time e \<le> current_time (scheduler w)) (work_queue (scheduler w)))"

function RunReadyTasks_loop :: "ThrottleTest \<Rightarrow> error + ThrottleTest" where
  "RunReadyTasks_loop w =
     (case RunNextTask w of
        Inl e \<Rightarrow> Inl e
      | Inr (did_run, w') \<Rightarrow> if did_run then RunReadyTasks_loop w' else Inr w')"
  by pat_completeness auto

lemma earliest_legal_later:
  "earliest_legal now recent limit = Inr (Some t) \<Longrightarrow> now < t"
  by (auto simp: earliest_legal_def Let_def split: if_splits)

lemma latest_earliest_legal_later:
  "latest_earliest_legal now recent limits = Inr (Some t) \<Longrightarrow> now < t"
proof (induction limits arbitrary: t)
  case Nil
  then show ?case by simp
next
  case (Cons limit limits)
  from Cons.prems obtain t1 t2 where
    t1: "earliest_legal now recent limit = Inr t1"
    and t2: "latest_earliest_legal now recent limits = Inr t2"
    and t: "Some t = (case (t1, t2) of (None, t) \<Rightarrow> t | (Some a, None) \<Rightarrow> Some a
                       | (Some a, Some b) \<Rightarrow> Some (max a b))"
    by (auto simp: and_then_def split: sum.splits)
  show ?case
    using t t1 t2 earliest_legal_later [of now recent limit] Cons.IH
    by (cases t1; cases t2) (auto simp: max_def split: if_splits)
qed

lemma ListenerClosure_Run_scheduler:
  "scheduler (ListenerClosure_Run l w) = scheduler w"
  by (cases l) (simp_all add: IncrementCounter_def IncrementAndCheckRateLimits_def Let_def)

lemma Fire_ready_tasks:
  assumes "Fire w = Inr w'"
  shows "current_time (scheduler w') = current_time (scheduler w)"
    and "ready_tasks w' = ready_tasks w"
proof -
  let ?now = "GetCurrentTime (scheduler w)"
  let ?recent = "drop_old (rate_limits (throttle w)) ?now (recent_event_times (throttle w))"
  from assms obtain violated where
    v: "latest_earliest_legal ?now ?recent (rate_limits (throttle w)) = Inr violated"
    by (auto simp: Fire_def Let_def and_then_def split: sum.splits)
  have "current_time (scheduler w') = current_time (scheduler w)
        \<and> ready_tasks w' = ready_tasks w"
  proof (cases violated)
    case None
    with assms v show ?thesis
      by (auto simp: Fire_def Let_def and_then_def ready_tasks_def
          ListenerClosure_Run_scheduler)
  next
    case (Some t)
    with v have "?now < t"
      by (auto dest: latest_earliest_legal_later)
    with assms v Some show ?thesis
      by (auto simp: Fire_def Let_def and_then_def ready_tasks_def GetCurrentTime_def
          DeterministicScheduler_Schedule_def split: if_splits sum.splits)
  qed
  then show "current_time (scheduler w') = current_time (scheduler w)"
    and "ready_tasks w' = ready_tasks w"
    by simp_all
qed

lemma top_in_queue: "top_entry q = Some e \<Longrightarrow> e \<in> set q"
  by (induction q arbitrary: e) (auto split: option.splits if_splits)

lemma filter_remove1_less:
  "e \<in> set q \<Longrightarrow> P e \<Longrightarrow> length (filter P (remove1 e q)) < length (filter P q)"
  by (induction q) auto

lemma RunNextTask_ready_tasks:
  assumes "RunNextTask w = Inr (True, w')"
  shows "ready_tasks w' < ready_tasks w"
proof -
  from assms obtain top_elt where
    t: "top_entry (work_queue (scheduler w)) = Some top_elt"
    and r: "time top_elt \<le> GetCurrentTime (scheduler w)"
    and f: "RetryFire (w\<lparr> scheduler := (scheduler w)
               \<lparr> work_queue := remove1 top_elt (work_queue (scheduler w)) \<rparr> \<rparr>) = Inr w'"
    by (cases "task top_elt")
      (auto simp: RunNextTask_def and_then_def split: option.splits if_splits sum.splits
        elim: ScheduledClosure_Run.elims)
  let ?w1 = "w\<lparr> scheduler := (scheduler w)
               \<lparr> work_queue := remove1 top_elt (work_queue (scheduler w)) \<rparr> \<rparr>"
  let ?w2 = "?w1\<lparr> throttle := (throttle ?w1)\<lparr> timer_scheduled := False \<rparr> \<rparr>"
  have "ready_tasks w' = ready_tasks ?w2"
    using f by (intro Fire_ready_tasks(2)) (simp add: RetryFire_def)
  also have "\<dots> = ready_tasks ?w1"
    by (simp add: ready_tasks_def)
  also have "\<dots> < ready_tasks w"
    using filter_remove1_less [OF top_in_queue [OF t], of "\<lambda>e. time e \<le> current_time (scheduler w)"] r
    by (simp add: ready_tasks_def GetCurrentTime_def)
  finally show ?thesis .
qed

termination RunReadyTasks_loop
  by (relation "measure ready_tasks") (auto dest: RunNextTask_ready_tasks)

definition RunReadyTasks :: "ThrottleTest \<Rightarrow> error + ThrottleTest" where
  "RunReadyTasks w =
     and_then (RunReadyTasks_loop (w\<lparr> scheduler := (scheduler w)\<lparr> running_internal := True \<rparr> \<rparr>))
       (\<lambda>w'. Inr (w'\<lparr> scheduler := (scheduler w')\<lparr> running_internal := False \<rparr> \<rparr>))"

text \<open>\<open>ThrottleTest::SetUp\<close> followed by the start of a test: the scheduler is started and
  the throttle is made with the rate limits and the listener of the test.\<close>

definition ThrottleTest_start :: "RateLimit list \<Rightarrow> ListenerClosure \<Rightarrow> ThrottleTest" where
  "ThrottleTest_start limits listener' =
     (let scheduler' = DeterministicScheduler_new
      in \<lparr> call_count = 0,
           start_time = GetCurrentTime scheduler',
           last_call_time = 0 - FromHours 1,
           assertion_failed = False,
           scheduler = StartScheduler scheduler',
           throttle = Throttle_new limits listener',
           listener_runs = [] \<rparr>)"

text \<open>\<open>ThrottleTest.ThrottlingStorm\<close>: the rate limits, and the loop that fires, lets
  ten milliseconds pass and runs the tasks that are ready.\<close>

definition storm_rate_limits :: "RateLimit list" where
  "storm_rate_limits =
     [\<lparr> window_size = FromSeconds 1, count = nat kMessagesPerSecond \<rparr>,
      \<lparr> window_size = FromMinutes 1, count = nat kMessagesPerMinute \<rparr>]"

definition ThrottlingStorm_iteration :: "TimeDelta \<Rightarrow> ThrottleTest \<Rightarrow> error + ThrottleTest" where
  "ThrottlingStorm_iteration fine_interval w =
     and_then (Fire w)
       (\<lambda>w1. RunReadyTasks (w1\<lparr> scheduler := ModifyTime fine_interval (scheduler w1) \<rparr>))"

function ThrottlingStorm_loop ::
  "int \<Rightarrow> int \<Rightarrow> TimeDelta \<Rightarrow> ThrottleTest \<Rightarrow> error + ThrottleTest" where
  "ThrottlingStorm_loop i num_iterations fine_interval w =
     (if i < num_iterations
      then and_then (ThrottlingStorm_iteration fine_interval w)
             (ThrottlingStorm_loop (i + 1) num_iterations fine_interval)
      else Inr w)"
  by pat_completeness auto
termination
  by (relation "measure (\<lambda>(i, num_iterations, fine_interval, w). nat (num_iterations - i))") auto

definition ThrottlingStorm :: "error + ThrottleTest" where
  "ThrottlingStorm =
     (let fine_interval = FromMilliseconds 10;
          duration_minutes = 5;
          duration = FromMinutes duration_minutes;
          num_iterations = tdiv duration fine_interval
      in ThrottlingStorm_loop 0 num_iterations fine_interval
           (ThrottleTest_start storm_rate_limits IncrementAndCheckRateLimits_closure))"

text \<open>A use of a throttle in general: calls of \<open>Fire\<close>, time that passes, and the scheduler
  running the tasks that are ready, in any order.\<close>

datatype ThrottleEvent = Do_Fire | Time_passes TimeDelta | Do_RunReadyTasks

fun throttle_event :: "ThrottleEvent \<Rightarrow> ThrottleTest \<Rightarrow> error + ThrottleTest" where
  "throttle_event Do_Fire w = Fire w"
| "throttle_event (Time_passes d) w = Inr (w\<lparr> scheduler := ModifyTime d (scheduler w) \<rparr>)"
| "throttle_event Do_RunReadyTasks w = RunReadyTasks w"

fun throttle_events :: "ThrottleEvent list \<Rightarrow> ThrottleTest \<Rightarrow> error + ThrottleTest" where
  "throttle_events [] w = Inr w"
| "throttle_events (e # es) w = and_then (throttle_event e w) (throttle_events es)"

text \<open>Time does not run backwards in a use of the throttle.\<close>

fun time_forward :: "ThrottleEvent \<Rightarrow> bool" where
  "time_forward (Time_passes d) = (0 \<le> d)"
| "time_forward Do_Fire = True"
| "time_forward Do_RunReadyTasks = True"

text \<open>The number of runs of the listener in the window that starts at \<open>t\<close> and lasts
  \<open>w\<close> (the start belongs to the window, the end does not).\<close>

definition runs_in_window :: "Time \<Rightarrow> TimeDelta \<Rightarrow> Time list \<Rightarrow> nat" where
  "runs_in_window t w runs = length (filter (\<lambda>x. t \<le> x \<and> x < t + w) runs)"

text \<open>What the throttle maintains, stated on the times \<open>runs\<close> at which the listener has
  run and the buffer \<open>recent\<close>: the runs are in order and not in the future; the buffer
  is a suffix of the runs, and a run that has left it is either more than \<open>K\<close> runs back
  or older than the largest window; and between a run and the \<open>c\<close>-th run after it at
  least \<open>w\<close> has passed, for each limit \<open>(w, c)\<close>.\<close>

definition spaced :: "RateLimit list \<Rightarrow> Time list \<Rightarrow> bool" where
  "spaced limits runs =
     (\<forall>l\<in>set limits. \<forall>i. i + count l < length runs \<longrightarrow>
        window_size l \<le> runs ! (i + count l) - runs ! i)"

definition log_inv :: "RateLimit list \<Rightarrow> Time \<Rightarrow> Time list \<Rightarrow> Time list \<Rightarrow> bool" where
  "log_inv limits now runs recent =
     (sorted runs \<and> (\<forall>x\<in>set runs. x \<le> now)
      \<and> (\<exists>k\<le>length runs. recent = drop k runs
            \<and> (\<forall>i<k. foldr max (map count limits) 0 < length runs - i
                      \<or> (\<exists>W. largest_window limits = Some W \<and> W < now - runs ! i)))
      \<and> spaced limits runs)"

text \<open>While a retry is armed, the scheduler holds exactly that task, and as long as its
  time lies ahead some limit is violated up to that time; otherwise the scheduler holds
  no task.\<close>

definition timer_inv ::
  "RateLimit list \<Rightarrow> Time \<Rightarrow> Time list \<Rightarrow> bool \<Rightarrow> TaskEntry list \<Rightarrow> bool" where
  "timer_inv limits now recent timer queue =
     (if timer then
        (\<exists>e. queue = [e]
           \<and> (now < time e \<longrightarrow>
                (\<exists>l\<in>set limits. 0 < count l \<and> count l \<le> length recent
                   \<and> time e \<le> recent ! (length recent - count l) + window_size l)))
      else queue = [])"

definition throttle_inv :: "RateLimit list \<Rightarrow> ThrottleTest \<Rightarrow> bool" where
  "throttle_inv limits w =
     (rate_limits (throttle w) = limits
      \<and> max_recent_events (throttle w) = foldr max (map count limits) 0
      \<and> started (scheduler w) \<and> \<not> stopped (scheduler w)
      \<and> log_inv limits (current_time (scheduler w)) (listener_runs w)
            (recent_event_times (throttle w))
      \<and> timer_inv limits (current_time (scheduler w)) (recent_event_times (throttle w))
            (timer_scheduled (throttle w)) (work_queue (scheduler w))
      \<and> call_count w = int (length (listener_runs w)))"

text \<open>A throttle that has not run its listener and has no retry scheduled.\<close>

definition never_fired :: "RateLimit list \<Rightarrow> ThrottleTest \<Rightarrow> bool" where
  "never_fired limits w =
     (rate_limits (throttle w) = limits \<and> listener_runs w = [] \<and> call_count w = 0
      \<and> work_queue (scheduler w) = [] \<and> \<not> timer_scheduled (throttle w))"

text \<open>The number of coming iterations of the storm in which nothing can happen: a retry
  is armed for a time that the clock does not reach in these iterations, some limit stays
  violated until the last \<open>Fire\<close> of them, and no time of the buffer gets older than the
  largest window. (Used to evaluate the storm without walking through its 30000
  iterations one by one.)\<close>

definition idle_iterations :: "int \<Rightarrow> int \<Rightarrow> TimeDelta \<Rightarrow> ThrottleTest \<Rightarrow> nat" where
  "idle_iterations i num_iterations d w =
     (let now = current_time (scheduler w);
          recent = recent_event_times (throttle w);
          limits = rate_limits (throttle w)
      in case work_queue (scheduler w) of
           [e] \<Rightarrow>
             let k = nat (min ((time e - now - 1) div d) (num_iterations - i));
                 last_fire = now + (int k - 1) * d
             in if 0 < d \<and> timer_scheduled (throttle w) \<and> \<not> running_internal (scheduler w)
                   \<and> list_all (\<lambda>l. 0 < count l) limits
                   \<and> list_ex (\<lambda>l. count l \<le> length recent
                        \<and> last_fire - recent ! (length recent - count l) < window_size l) limits
                   \<and> drop_old limits last_fire recent = recent
                then k else 0
         | _ \<Rightarrow> 0)"

section \<open>InvalidationClientImpl: data\<close>

text \<open>invalidation-client-impl.cc. The headers of the client and of its collaborators
  (session manager, registration manager, network manager, persistence manager, system
  resources) and the protocol buffers are not among the sources. The client is embedded
  with the members its functions read and write, the collaborators by the calls the
  client makes on them.\<close>

type_synonym int64 = "64 word"

text \<open>The persistent state blob \<open>TiclState\<close>.\<close>

record TiclState =
  uniquifier :: string
  session_token :: string
  sequence_number_limit :: int64

text \<open>Object ids and invalidations, with the fields the client reads: the source and the
  name of an object id, the optional component stamp log of an invalidation.\<close>

datatype ObjectId_Source = ObjectId_Source_INTERNAL | ObjectId_Source_other nat

record ObjectId =
  source :: ObjectId_Source
  name_string_value :: string

record ComponentStamp =
  component :: string
  stamp_time :: int

record Invalidation =
  object_id :: ObjectId
  version :: int64
  payload :: "string option"
  component_stamp_log :: "ComponentStamp list option"

definition INVALIDATE_ALL_OBJECT_NAME :: string where
  "INVALIDATE_ALL_OBJECT_NAME = ''ALL''"

text \<open>Messages. Of a \<open>ServerToClientMessage\<close> the client reads the invalidations; the rest
  is read by the collaborators that are handed the bundle. A field of a protocol buffer
  has a value also when it is not set (the default), so \<open>has_message_type\<close> and
  \<open>message_type\<close> are two fields.\<close>

record ServerToClientMessage =
  invalidation :: "Invalidation list"
  other_fields :: string

datatype MessageType = TYPE_OBJECT_CONTROL | TYPE_SHUTDOWN | TYPE_other nat

record RegisterOperation =
  op_object_id :: ObjectId
  op_is_register :: bool
  op_seqno :: int64

record ClientToServerMessage =
  has_message_type :: bool
  message_type :: MessageType
  has_client_type :: bool
  register_operation :: "RegisterOperation list"
  acked_invalidation :: "Invalidation list"

text \<open>The result of \<open>SessionManager::ProcessMessage\<close>. The \<open>switch\<close> of
  \<open>HandleInboundMessage\<close> has a \<open>default\<close> branch for a value that is none of the five
  enumerators.\<close>

datatype MessageAction =
    IGNORE_MESSAGE
  | ACQUIRE_SESSION
  | LOSE_CLIENT_ID
  | LOSE_SESSION
  | PROCESS_OBJECT_CONTROL
  | Unrecognized_action nat

text \<open>The closures the client creates with \<open>NewPermanentCallback\<close>: the acknowledgement
  callback handed to the listener, the calls scheduled on the listener thread, the tasks
  scheduled on the internal thread and the callbacks of a write of the state blob.\<close>

datatype AckCallback = ScheduleAcknowledgeInvalidation_callback Invalidation

datatype ListenerCall =
    Listener_SessionStatusChanged bool
  | Listener_InvalidateAll AckCallback
  | Listener_Invalidate Invalidation AckCallback

datatype Task = PeriodicTask_task | AcknowledgeInvalidation_task Invalidation

datatype WriteCallback =
    HandleSeqnoWritebackResult_callback int64
  | HandleBestEffortWrite_callback

text \<open>The calls the client makes on its collaborators, on its lock and on its own
  \<open>ForgetClientId\<close>. \<open>SM\<close> is the session manager, \<open>RM\<close> the registration manager,
  \<open>NM\<close> the network manager, \<open>PM\<close> the persistence manager. The history of these calls
  is the client's view of the collaborators' state.\<close>

datatype Call =
    Lock_acquire
  | Lock_release
  | SM_new string string
  | SM_HasDataToSend
  | SM_HasSession
  | SM_ProcessMessage ServerToClientMessage
  | SM_Shutdown
  | SM_client_uniquifier
  | SM_session_token
  | SM_AddSessionAction
  | RM_new int64
  | RM_current_op_seqno
  | RM_maximum_op_seqno_inclusive
  | RM_UpdateMaximumSeqno int64
  | RM_DoPeriodicRegistrationCheck
  | RM_Register ObjectId
  | RM_Unregister ObjectId
  | RM_HandleNewSession
  | RM_HandleLostSession
  | RM_ProcessInboundMessage ServerToClientMessage
  | RM_AddOutboundData
  | NM_HasDataToSend
  | NM_OutboundDataReady
  | NM_RecordImplicitHeartbeat
  | NM_HandleInboundMessage ServerToClientMessage
  | NM_RegisterOutboundListener nat
  | NM_AddHeartbeat
  | NM_FinalizeOutboundMessage
  | PM_DoPeriodicCheck
  | PM_WriteState string WriteCallback
  | Resources_current_time
  | ScheduleOnListenerThread ListenerCall
  | ScheduleImmediately Task
  | ScheduleWithDelay TimeDelta Task
  | Call_ForgetClientId

text \<open>What the collaborators answer is an input: the answer to a call is a function of
  the history of calls up to and including it. A collaborator that is handed the outbound
  message answers with the message as it leaves it. The (de)serialisation functions and
  two constants of absent headers are inputs as well.\<close>

record Env =
  bool_answer :: "Call list \<Rightarrow> bool"
  int64_answer :: "Call list \<Rightarrow> int64"
  string_answer :: "Call list \<Rightarrow> string"
  action_answer :: "Call list \<Rightarrow> MessageAction"
  time_answer :: "Call list \<Rightarrow> Time"
  message_answer :: "Call list \<Rightarrow> ClientToServerMessage \<Rightarrow> ClientToServerMessage"
  DeserializeState :: "string \<Rightarrow> TiclState option"
  SerializeState :: "TiclState \<Rightarrow> string"
  ParseFromString :: "string \<Rightarrow> ServerToClientMessage"
  SerializeToString :: "ClientToServerMessage \<Rightarrow> string"
  kFirstSequenceNumber :: int64
  default_message_type :: MessageType

record ClientConfig =
  periodic_task_interval :: TimeDelta
  smear_factor :: real
  seqno_block_size :: int64
  max_ops_per_message :: int

text \<open>The members of \<open>InvalidationClientImpl\<close> that its functions read and write, and the
  history of its calls.\<close>

record InvalidationClientImpl =
  config :: ClientConfig
  awaiting_seqno_writeback :: bool
  pending_invalidation_acks :: "Invalidation list"
  calls :: "Call list"

datatype Thread = InternalThread | ExternalThread

definition IsRunningOnInternalThread :: "Thread \<Rightarrow> bool" where
  "IsRunningOnInternalThread thread = (thread = InternalThread)"

definition call :: "Call \<Rightarrow> InvalidationClientImpl \<Rightarrow> InvalidationClientImpl" where
  "call c s = s\<lparr> calls := calls s @ [c] \<rparr>"

definition ask_bool :: "Env \<Rightarrow> Call \<Rightarrow> InvalidationClientImpl \<Rightarrow> bool \<times> InvalidationClientImpl" where
  "ask_bool env c s = (bool_answer env (calls s @ [c]), call c s)"

definition ask_int64 :: "Env \<Rightarrow> Call \<Rightarrow> InvalidationClientImpl \<Rightarrow> int64 \<times> InvalidationClientImpl" where
  "ask_int64 env c s = (int64_answer env (calls s @ [c]), call c s)"

definition ask_string :: "Env \<Rightarrow> Call \<Rightarrow> InvalidationClientImpl \<Rightarrow> string \<times> InvalidationClientImpl" where
  "ask_string env c s = (string_answer env (calls s @ [c]), call c s)"

definition ask_action ::
  "Env \<Rightarrow> Call \<Rightarrow> InvalidationClientImpl \<Rightarrow> MessageAction \<times> InvalidationClientImpl" where
  "ask_action env c s = (action_answer env (calls s @ [c]), call c s)"

definition ask_time :: "Env \<Rightarrow> Call \<Rightarrow> InvalidationClientImpl \<Rightarrow> Time \<times> InvalidationClientImpl" where
  "ask_time env c s = (time_answer env (calls s @ [c]), call c s)"

definition hand_message ::
  "Env \<Rightarrow> Call \<Rightarrow> ClientToServerMessage \<times> InvalidationClientImpl
     \<Rightarrow> ClientToServerMessage \<times> InvalidationClientImpl" where
  "hand_message env c ms = (message_answer env (calls (snd ms) @ [c]) (fst ms), call c (snd ms))"


section \<open>InvalidationClientImpl: functions\<close>

text \<open>Modelled from the spec: \<open>InvalidationClientImpl::ForgetClientId\<close> is called in
  invalidation-client-impl.cc and defined nowhere among the sources. Section 4.7, ``On
  client id forgotten'': it resets the session to \<open>NO_CLIENT_ID\<close> and the sequence numbers
  of the registration manager. These are effects on collaborators, which the history of
  calls stands for; the client's own members stay as they are.\<close>

definition ForgetClientId :: "InvalidationClientImpl \<Rightarrow> InvalidationClientImpl" where
  "ForgetClientId s = call Call_ForgetClientId s"

definition AllocateNewSequenceNumbers ::
  "Env \<Rightarrow> TiclState \<Rightarrow> InvalidationClientImpl \<Rightarrow> InvalidationClientImpl" where
  "AllocateNewSequenceNumbers env persistent_state s =
     (let maximum_op_seqno_inclusive =
            sequence_number_limit persistent_state + seqno_block_size (config s);
          new_state = persistent_state\<lparr> sequence_number_limit := maximum_op_seqno_inclusive \<rparr>;
          s1 = s\<lparr> awaiting_seqno_writeback := True \<rparr>;
          serialized = SerializeState env new_state
      in call (PM_WriteState serialized
                 (HandleSeqnoWritebackResult_callback maximum_op_seqno_inclusive)) s1)"

text \<open>The constructor. Its member initialisers read the clock of the resources to seed
  the random number generator \<open>random_\<close> (the numbers it draws are inputs of the
  functions that draw them). The two managers are constructed with the values read from
  the state blob, or with fresh ones.\<close>

definition InvalidationClientImpl_new ::
  "Env \<Rightarrow> ClientConfig \<Rightarrow> string \<Rightarrow> InvalidationClientImpl" where
  "InvalidationClientImpl_new env config' serialized_state =
     (let (seed, s0) = ask_time env Resources_current_time
                         \<lparr> config = config', awaiting_seqno_writeback = False,
                           pending_invalidation_acks = [], calls = [] \<rparr>;
          persistent = DeserializeState env serialized_state;
          (uniquifier', session_token', initial_seqno) =
            (case persistent of
               Some persistent_state \<Rightarrow>
                 (uniquifier persistent_state, session_token persistent_state,
                  sequence_number_limit persistent_state)
             | None \<Rightarrow> ([], [], kFirstSequenceNumber env));
          s1 = call (SM_new uniquifier' session_token') s0;
          s2 = call (RM_new initial_seqno) s1;
          s3 = (case persistent of
                  Some persistent_state \<Rightarrow>
                    AllocateNewSequenceNumbers env persistent_state
                      (call (ScheduleOnListenerThread (Listener_SessionStatusChanged True))
                         (call RM_HandleNewSession s2))
                | None \<Rightarrow> call (RM_UpdateMaximumSeqno (seqno_block_size config')) s2)
      in call (ScheduleImmediately PeriodicTask_task) s3)"

definition HandleSeqnoWritebackResult ::
  "int64 \<Rightarrow> bool \<Rightarrow> InvalidationClientImpl \<Rightarrow> InvalidationClientImpl" where
  "HandleSeqnoWritebackResult maximum_op_seqno_inclusive success s0 =
     (let s1 = call Lock_acquire s0;
          s2 = s1\<lparr> awaiting_seqno_writeback := False \<rparr>;
          s3 = (if success then call (RM_UpdateMaximumSeqno maximum_op_seqno_inclusive) s2
                else ForgetClientId s2)
      in call Lock_release s3)"

definition HandleBestEffortWrite :: "bool \<Rightarrow> InvalidationClientImpl \<Rightarrow> InvalidationClientImpl" where
  "HandleBestEffortWrite result s = s"

text \<open>\<open>PeriodicTask\<close>, lines 181 to 197: the check for exhausted sequence numbers and the
  three flags.\<close>

definition PeriodicTask_checks ::
  "Env \<Rightarrow> InvalidationClientImpl \<Rightarrow> (bool \<times> bool \<times> bool) \<times> InvalidationClientImpl" where
  "PeriodicTask_checks env s0 =
     (let (current_op_seqno, s1) = ask_int64 env RM_current_op_seqno s0;
          (maximum_op_seqno_inclusive, s2) = ask_int64 env RM_maximum_op_seqno_inclusive s1;
          s3 = (if sint current_op_seqno > sint maximum_op_seqno_inclusive
                then ForgetClientId s2 else s2);
          (have_session_data, s4) = ask_bool env SM_HasDataToSend s3;
          (have_registration_data, s5) = ask_bool env RM_DoPeriodicRegistrationCheck s4;
          (should_heartbeat_or_poll, s6) = ask_bool env NM_HasDataToSend s5
      in ((have_session_data, have_registration_data, should_heartbeat_or_poll), s6))"

text \<open>Lines 199 to 207. \<open>HasSession\<close> is only asked when there is no session data
  (\<open>&&\<close> evaluates its right operand only if the left one holds).\<close>

definition PeriodicTask_send ::
  "Env \<Rightarrow> (bool \<times> bool \<times> bool) \<times> InvalidationClientImpl \<Rightarrow> InvalidationClientImpl" where
  "PeriodicTask_send env fs =
     (case fs of ((have_session_data, have_registration_data, should_heartbeat_or_poll), s0) \<Rightarrow>
        let (no_session, s1) =
              (if \<not> have_session_data
               then (let (has_session, s') = ask_bool env SM_HasSession s0
                     in (\<not> has_session, s'))
               else (False, s0))
        in if \<not> have_session_data \<and> no_session then s1
           else if have_session_data \<or> have_registration_data \<or> should_heartbeat_or_poll
           then call NM_OutboundDataReady s1
           else s1)"

text \<open>\<open>PeriodicTask\<close>. The \<open>Finally\<close> object is declared after the lock is taken, so its
  destructor reschedules the task on every way out of the function, before the lock is
  released. The second argument is the number drawn from \<open>random_\<close>.\<close>

definition PeriodicTask ::
  "Env \<Rightarrow> real \<Rightarrow> InvalidationClientImpl \<Rightarrow> error + InvalidationClientImpl" where
  "PeriodicTask env RandDouble s0 =
     (let s1 = call Lock_acquire s0 in
      and_then
        (SmearDelay (periodic_task_interval (config s1)) (smear_factor (config s1)) RandDouble)
        (\<lambda>smeared_delay.
           let reschedule_periodic_task =
                 (\<lambda>s. call (ScheduleWithDelay smeared_delay PeriodicTask_task) s);
               s2 = call PM_DoPeriodicCheck s1
           in if awaiting_seqno_writeback s2
              then Inr (call Lock_release (reschedule_periodic_task s2))
              else Inr (call Lock_release
                          (reschedule_periodic_task
                             (PeriodicTask_send env (PeriodicTask_checks env s2))))))"

definition Register ::
  "Thread \<Rightarrow> ObjectId \<Rightarrow> InvalidationClientImpl \<Rightarrow> error + InvalidationClientImpl" where
  "Register thread oid s =
     (if \<not> \<not> IsRunningOnInternalThread thread then Inl CheckFailed
      else Inr (call Lock_release (call (RM_Register oid) (call Lock_acquire s))))"

definition Unregister ::
  "Thread \<Rightarrow> ObjectId \<Rightarrow> InvalidationClientImpl \<Rightarrow> error + InvalidationClientImpl" where
  "Unregister thread oid s =
     (if \<not> \<not> IsRunningOnInternalThread thread then Inl CheckFailed
      else Inr (call Lock_release (call (RM_Unregister oid) (call Lock_acquire s))))"

definition PermanentShutdown ::
  "Thread \<Rightarrow> InvalidationClientImpl \<Rightarrow> error + InvalidationClientImpl" where
  "PermanentShutdown thread s =
     (if \<not> \<not> IsRunningOnInternalThread thread then Inl CheckFailed
      else Inr (call Lock_release (call SM_Shutdown (call Lock_acquire s))))"

definition HandleNewSession :: "Env \<Rightarrow> InvalidationClientImpl \<Rightarrow> InvalidationClientImpl" where
  "HandleNewSession env s0 =
     (let (client_uniquifier, s1) = ask_string env SM_client_uniquifier s0;
          s2 = call RM_HandleNewSession s1;
          s3 = call NM_RecordImplicitHeartbeat s2;
          (uniquifier', s4) = ask_string env SM_client_uniquifier s3;
          (session_token', s5) = ask_string env SM_session_token s4;
          (limit, s6) = ask_int64 env RM_maximum_op_seqno_inclusive s5;
          state = \<lparr> uniquifier = uniquifier', session_token = session_token',
                    sequence_number_limit = limit \<rparr>;
          serialized = SerializeState env state;
          s7 = call (PM_WriteState serialized HandleBestEffortWrite_callback) s6
      in call (ScheduleOnListenerThread (Listener_SessionStatusChanged True)) s7)"

definition HandleLostSession :: "InvalidationClientImpl \<Rightarrow> InvalidationClientImpl" where
  "HandleLostSession s =
     call (ScheduleOnListenerThread (Listener_SessionStatusChanged False))
       (call RM_HandleLostSession s)"

definition ProcessInvalidation ::
  "Invalidation \<Rightarrow> InvalidationClientImpl \<Rightarrow> InvalidationClientImpl" where
  "ProcessInvalidation invalidation' s =
     (let callback = ScheduleAcknowledgeInvalidation_callback invalidation';
          oid = object_id invalidation'
      in if source oid = ObjectId_Source_INTERNAL
            \<and> name_string_value oid = INVALIDATE_ALL_OBJECT_NAME
         then call (ScheduleOnListenerThread (Listener_InvalidateAll callback)) s
         else call (ScheduleOnListenerThread (Listener_Invalidate invalidation' callback)) s)"

text \<open>The loop of \<open>HandleObjectControl\<close> over \<open>bundle.invalidation(i)\<close>.\<close>

fun ProcessInvalidations ::
  "Invalidation list \<Rightarrow> InvalidationClientImpl \<Rightarrow> InvalidationClientImpl" where
  "ProcessInvalidations [] s = s"
| "ProcessInvalidations (invalidation' # rest) s =
     ProcessInvalidations rest (ProcessInvalidation invalidation' s)"

definition HandleObjectControl ::
  "ServerToClientMessage \<Rightarrow> InvalidationClientImpl \<Rightarrow> InvalidationClientImpl" where
  "HandleObjectControl bundle s =
     ProcessInvalidations (invalidation bundle) (call (RM_ProcessInboundMessage bundle) s)"

definition HandleInboundMessage ::
  "Env \<Rightarrow> Thread \<Rightarrow> string \<Rightarrow> InvalidationClientImpl \<Rightarrow> error + InvalidationClientImpl" where
  "HandleInboundMessage env thread message s0 =
     (if \<not> \<not> IsRunningOnInternalThread thread then Inl CheckFailed
      else
        let s1 = call Lock_acquire s0 in
        if awaiting_seqno_writeback s1 then Inr (call Lock_release s1)
        else
          let bundle = ParseFromString env message;
              (action, s2) = ask_action env (SM_ProcessMessage bundle) s1
          in case action of
               IGNORE_MESSAGE \<Rightarrow> Inr (call Lock_release s2)
             | ACQUIRE_SESSION \<Rightarrow>
                 Inr (call Lock_release
                        (call (NM_HandleInboundMessage bundle) (HandleNewSession env s2)))
             | LOSE_CLIENT_ID \<Rightarrow>
                 Inr (call Lock_release
                        (call (NM_HandleInboundMessage bundle) (ForgetClientId s2)))
             | LOSE_SESSION \<Rightarrow>
                 Inr (call Lock_release
                        (call (NM_HandleInboundMessage bundle) (HandleLostSession s2)))
             | PROCESS_OBJECT_CONTROL \<Rightarrow>
                 Inr (call Lock_release
                        (call (NM_HandleInboundMessage bundle) (HandleObjectControl bundle s2)))
             | Unrecognized_action _ \<Rightarrow> Inr (call Lock_release s2))"

definition AcknowledgeInvalidation ::
  "Invalidation \<Rightarrow> InvalidationClientImpl \<Rightarrow> InvalidationClientImpl" where
  "AcknowledgeInvalidation invalidation' s0 =
     (let s1 = call Lock_acquire s0;
          s2 = s1\<lparr> pending_invalidation_acks := pending_invalidation_acks s1 @ [invalidation'] \<rparr>;
          s3 = call NM_OutboundDataReady s2
      in call Lock_release s3)"

definition ScheduleAcknowledgeInvalidation ::
  "Invalidation \<Rightarrow> InvalidationClientImpl \<Rightarrow> InvalidationClientImpl" where
  "ScheduleAcknowledgeInvalidation invalidation' s =
     call (ScheduleImmediately (AcknowledgeInvalidation_task invalidation')) s"

definition RegisterOutboundListener ::
  "Thread \<Rightarrow> nat \<Rightarrow> InvalidationClientImpl \<Rightarrow> error + InvalidationClientImpl" where
  "RegisterOutboundListener thread outbound_message_ready s =
     (if \<not> \<not> IsRunningOnInternalThread thread then Inl CheckFailed
      else Inr (call Lock_release
                  (call (NM_RegisterOutboundListener outbound_message_ready)
                     (call Lock_acquire s))))"

text \<open>\<open>TakeOutboundMessage\<close>, lines 414 to 421: an invalidation that has a component
  stamp log gets a stamp of the client; the time is read from the resources for each
  stamp.\<close>

definition add_client_stamp ::
  "Env \<Rightarrow> Invalidation \<Rightarrow> InvalidationClientImpl \<Rightarrow> Invalidation \<times> InvalidationClientImpl" where
  "add_client_stamp env ack s =
     (case component_stamp_log ack of
        None \<Rightarrow> (ack, s)
      | Some stamps \<Rightarrow>
          let (now, s1) = ask_time env Resources_current_time s;
              stamp = \<lparr> component = ''C'',
                        stamp_time = tdiv now kMicrosecondsPerMillisecond \<rparr>
          in (ack\<lparr> component_stamp_log := Some (stamps @ [stamp]) \<rparr>, s1))"

text \<open>The \<open>while\<close> loop of \<open>TakeOutboundMessage\<close>, lines 407 to 423. The counters are
  \<open>int\<close>s of C++; they stay far from the bounds of the type (they count entries of one
  message), so they are integers here.\<close>

function TakeOutboundMessage_acks ::
  "Env \<Rightarrow> int \<Rightarrow> int \<Rightarrow> ClientToServerMessage \<times> InvalidationClientImpl
     \<Rightarrow> ClientToServerMessage \<times> InvalidationClientImpl" where
  "TakeOutboundMessage_acks env registration_count invalidation_acks_sent (message, s) =
     (if \<not> pending_invalidation_acks s = []
         \<and> registration_count + invalidation_acks_sent < max_ops_per_message (config s)
      then
        let (ack, s1) = add_client_stamp env (last (pending_invalidation_acks s)) s;
            message1 = message\<lparr> acked_invalidation := acked_invalidation message @ [ack] \<rparr>;
            s2 = s1\<lparr> pending_invalidation_acks := butlast (pending_invalidation_acks s1) \<rparr>
        in TakeOutboundMessage_acks env registration_count (invalidation_acks_sent + 1)
             (message1, s2)
      else (message, s))"
  by pat_completeness auto
termination
  by (relation "measure (\<lambda>(env, registration_count, invalidation_acks_sent, message, s).
        length (pending_invalidation_acks s))")
    (auto simp: add_client_stamp_def ask_time_def call_def split: option.splits)

text \<open>Lines 395 to 424: a message of type \<open>TYPE_OBJECT_CONTROL\<close> gets the heartbeat and
  the acknowledgements.\<close>

definition TakeOutboundMessage_object_control ::
  "Env \<Rightarrow> ClientToServerMessage \<times> InvalidationClientImpl
     \<Rightarrow> ClientToServerMessage \<times> InvalidationClientImpl" where
  "TakeOutboundMessage_object_control env ms =
     (if message_type (fst ms) = TYPE_OBJECT_CONTROL then
        let (message1, s1) = hand_message env NM_AddHeartbeat ms;
            invalidation_acks_sent = 0;
            registration_count = int (length (register_operation message1))
        in TakeOutboundMessage_acks env registration_count invalidation_acks_sent
             (message1, s1)
      else ms)"

definition ClientToServerMessage_new :: "Env \<Rightarrow> ClientToServerMessage" where
  "ClientToServerMessage_new env =
     \<lparr> has_message_type = False, message_type = default_message_type env,
       has_client_type = False, register_operation = [], acked_invalidation = [] \<rparr>"

text \<open>Lines 377 to 427: the message before the final checks and its serialisation.\<close>

definition TakeOutboundMessage_build ::
  "Env \<Rightarrow> InvalidationClientImpl \<Rightarrow> ClientToServerMessage \<times> InvalidationClientImpl" where
  "TakeOutboundMessage_build env s =
     (let ms1 = hand_message env SM_AddSessionAction (ClientToServerMessage_new env, s);
          ms2 = (if \<not> has_message_type (fst ms1) then hand_message env RM_AddOutboundData ms1
                 else ms1);
          ms3 = TakeOutboundMessage_object_control env ms2
      in hand_message env NM_FinalizeOutboundMessage ms3)"

definition TakeOutboundMessage ::
  "Env \<Rightarrow> Thread \<Rightarrow> InvalidationClientImpl \<Rightarrow> error + (string \<times> InvalidationClientImpl)" where
  "TakeOutboundMessage env thread s0 =
     (if \<not> \<not> IsRunningOnInternalThread thread then Inl CheckFailed
      else
        let (message, s1) = TakeOutboundMessage_build env (call Lock_acquire s0)
        in if \<not> has_message_type message then Inl CheckFailed
           else if \<not> has_client_type message then Inl CheckFailed
           else Inr (SerializeToString env message, call Lock_release s1))"

text \<open>Every way into the client after its construction: the six functions of its public
  interface, called on some thread, and the closures it has scheduled, run by the
  resources.\<close>

datatype Entry =
    Enter_Register Thread ObjectId
  | Enter_Unregister Thread ObjectId
  | Enter_PermanentShutdown Thread
  | Enter_HandleInboundMessage Thread string
  | Enter_TakeOutboundMessage Thread
  | Enter_RegisterOutboundListener Thread nat
  | Run_PeriodicTask real
  | Run_AcknowledgeInvalidation Invalidation
  | Run_ScheduleAcknowledgeInvalidation Invalidation
  | Run_HandleSeqnoWritebackResult int64 bool
  | Run_HandleBestEffortWrite bool

fun enter :: "Env \<Rightarrow> Entry \<Rightarrow> InvalidationClientImpl \<Rightarrow> error + InvalidationClientImpl" where
  "enter env (Enter_Register thread oid) s = Register thread oid s"
| "enter env (Enter_Unregister thread oid) s = Unregister thread oid s"
| "enter env (Enter_PermanentShutdown thread) s = PermanentShutdown thread s"
| "enter env (Enter_HandleInboundMessage thread message) s =
     HandleInboundMessage env thread message s"
| "enter env (Enter_TakeOutboundMessage thread) s =
     and_then (TakeOutboundMessage env thread s) (\<lambda>r. Inr (snd r))"
| "enter env (Enter_RegisterOutboundListener thread l) s = RegisterOutboundListener thread l s"
| "enter env (Run_PeriodicTask r) s = PeriodicTask env r s"
| "enter env (Run_AcknowledgeInvalidation ack) s = Inr (AcknowledgeInvalidation ack s)"
| "enter env (Run_ScheduleAcknowledgeInvalidation ack) s =
     Inr (ScheduleAcknowledgeInvalidation ack s)"
| "enter env (Run_HandleSeqnoWritebackResult m success) s =
     Inr (HandleSeqnoWritebackResult m success s)"
| "enter env (Run_HandleBestEffortWrite result) s = Inr (HandleBestEffortWrite result s)"

text \<open>Running the closures: the acknowledgement callback, when the listener invokes it;
  a task, when the resources run it; the callback of a write, with its result.\<close>

fun AckCallback_Run :: "AckCallback \<Rightarrow> InvalidationClientImpl \<Rightarrow> InvalidationClientImpl" where
  "AckCallback_Run (ScheduleAcknowledgeInvalidation_callback ack) s =
     ScheduleAcknowledgeInvalidation ack s"

fun Task_Run :: "Env \<Rightarrow> real \<Rightarrow> Task \<Rightarrow> InvalidationClientImpl \<Rightarrow> error + InvalidationClientImpl" where
  "Task_Run env r PeriodicTask_task s = PeriodicTask env r s"
| "Task_Run env r (AcknowledgeInvalidation_task ack) s = Inr (AcknowledgeInvalidation ack s)"

fun WriteCallback_Run ::
  "WriteCallback \<Rightarrow> bool \<Rightarrow> InvalidationClientImpl \<Rightarrow> InvalidationClientImpl" where
  "WriteCallback_Run (HandleSeqnoWritebackResult_callback m) success s =
     HandleSeqnoWritebackResult m success s"
| "WriteCallback_Run HandleBestEffortWrite_callback result s = HandleBestEffortWrite result s"

text \<open>An environment for examples: every collaborator answers with a fixed value, a
  state blob parses when it is not empty, and the managers leave the outbound message
  typed \<open>TYPE_OBJECT_CONTROL\<close> with one register operation.\<close>

definition example_oid :: ObjectId where
  "example_oid = \<lparr> source = ObjectId_Source_other 4, name_string_value = ''a'' \<rparr>"

definition example_env :: Env where
  "example_env =
     \<lparr> bool_answer = (\<lambda>h. True),
       int64_answer = (\<lambda>h. 7),
       string_answer = (\<lambda>h. ''u''),
       action_answer = (\<lambda>h. IGNORE_MESSAGE),
       time_answer = (\<lambda>h. 5000 * int (length h)),
       message_answer = (\<lambda>h m.
         if last h = RM_AddOutboundData
         then m\<lparr> has_message_type := True, message_type := TYPE_OBJECT_CONTROL,
                 register_operation :=
                   [\<lparr> op_object_id = example_oid, op_is_register = True, op_seqno = 1 \<rparr>] \<rparr>
         else if last h = NM_FinalizeOutboundMessage then m\<lparr> has_client_type := True \<rparr>
         else m),
       DeserializeState = (\<lambda>blob. if blob = [] then None
          else Some \<lparr> uniquifier = ''u'', session_token = ''t'', sequence_number_limit = 100 \<rparr>),
       SerializeState = (\<lambda>st. ''blob''),
       ParseFromString = (\<lambda>m. \<lparr> invalidation = [], other_fields = m \<rparr>),
       SerializeToString = (\<lambda>m. ''bytes''),
       kFirstSequenceNumber = 1,
       default_message_type = TYPE_other 1 \<rparr>"

definition example_config :: ClientConfig where
  "example_config =
     \<lparr> periodic_task_interval = 500000, smear_factor = round_to_double (1 / 5),
       seqno_block_size = 50,
       max_ops_per_message = 2 \<rparr>"

text \<open>What \<open>TakeOutboundMessage\<close> is to do with an acknowledged invalidation \<open>ack\<close>, as a
  relation to the entry \<open>ack'\<close> of the message: the same invalidation, its component stamp
  log (if it has one) extended by one stamp of the component \<open>C\<close> whose time is a reading
  of the clock, in milliseconds, taken after the history \<open>h\<close> (the \<open>k+1\<close>-st reading).\<close>

definition client_stamped :: "Env \<Rightarrow> Call list \<Rightarrow> Invalidation \<Rightarrow> Invalidation \<Rightarrow> bool" where
  "client_stamped env h ack ack' =
     (case component_stamp_log ack of
        None \<Rightarrow> ack' = ack
      | Some stamps \<Rightarrow>
          (\<exists>k. ack' = ack\<lparr> component_stamp_log := Some (stamps @
                   [\<lparr> component = ''C'',
                      stamp_time =
                        tdiv (time_answer env (h @ replicate (Suc k) Resources_current_time))
                          kMicrosecondsPerMillisecond \<rparr>]) \<rparr>))"

text \<open>The delivery of an invalidation that the specification asks for: \<open>InvalidateAll\<close>
  for the object of the internal source named \<open>ALL\<close>, \<open>Invalidate\<close> for every other one,
  each with the acknowledgement callback of that invalidation.\<close>

definition listener_delivery :: "Invalidation \<Rightarrow> ListenerCall" where
  "listener_delivery i =
     (if source (object_id i) = ObjectId_Source_INTERNAL
         \<and> name_string_value (object_id i) = ''ALL''
      then Listener_InvalidateAll (ScheduleAcknowledgeInvalidation_callback i)
      else Listener_Invalidate i (ScheduleAcknowledgeInvalidation_callback i))"

text \<open>The thread on which a function of the public interface is called.\<close>

fun caller_thread :: "Entry \<Rightarrow> Thread option" where
  "caller_thread (Enter_Register thread oid) = Some thread"
| "caller_thread (Enter_Unregister thread oid) = Some thread"
| "caller_thread (Enter_PermanentShutdown thread) = Some thread"
| "caller_thread (Enter_HandleInboundMessage thread message) = Some thread"
| "caller_thread (Enter_TakeOutboundMessage thread) = Some thread"
| "caller_thread (Enter_RegisterOutboundListener thread l) = Some thread"
| "caller_thread (Run_PeriodicTask r) = None"
| "caller_thread (Run_AcknowledgeInvalidation ack) = None"
| "caller_thread (Run_ScheduleAcknowledgeInvalidation ack) = None"
| "caller_thread (Run_HandleSeqnoWritebackResult m success) = None"
| "caller_thread (Run_HandleBestEffortWrite result) = None"

section \<open>Properties of double-precision rounding\<close>

lemma round_half_even_ge_floor: "\<lfloor>y\<rfloor> \<le> round_half_even y"
  by (simp add: round_half_even_def Let_def)

lemma round_half_even_le_floor: "round_half_even y \<le> \<lfloor>y\<rfloor> + 1"
  by (simp add: round_half_even_def Let_def)

lemma round_half_even_error: "\<bar>of_int (round_half_even y) - y\<bar> \<le> 1 / 2"
proof -
  have "of_int \<lfloor>y\<rfloor> \<le> y" "y < of_int \<lfloor>y\<rfloor> + 1"
    by linarith+
  then show ?thesis
    by (auto simp: round_half_even_def Let_def)
qed

lemma round_half_even_of_int [simp]: "round_half_even (of_int k) = k"
  by (simp add: round_half_even_def)

lemma round_half_even_mono:
  assumes "y \<le> z"
  shows "round_half_even y \<le> round_half_even z"
proof (cases "\<lfloor>y\<rfloor> = \<lfloor>z\<rfloor>")
  case True
  with assms show ?thesis
    by (auto simp: round_half_even_def Let_def)
next
  case False
  with assms have "\<lfloor>y\<rfloor> < \<lfloor>z\<rfloor>"
    using floor_mono [OF assms] by linarith
  then have "round_half_even y \<le> \<lfloor>z\<rfloor>"
    using round_half_even_le_floor [of y] by linarith
  then show ?thesis
    using round_half_even_ge_floor [of z] by linarith
qed

lemma binary_exponent_bounds:
  assumes "x \<noteq> 0"
  shows "2 powi binary_exponent x \<le> \<bar>x\<bar>" and "\<bar>x\<bar> < 2 powi (binary_exponent x + 1)"
proof -
  have "2 powi binary_exponent x \<le> \<bar>x\<bar> \<and> \<bar>x\<bar> < 2 powi (binary_exponent x + 1)"
  proof (cases "1 \<le> \<bar>x\<bar>")
    case True
    let ?n = "\<lfloor>\<bar>x\<bar>\<rfloor>"
    have n: "0 < ?n"
      using True by linarith
    have b: "1 \<le> bitlen ?n"
      using n bitlen_eq_zero_iff [of ?n] bitlen_nonneg [of ?n] by linarith
    from bitlen_bounds [OF n]
    have lo: "(2::int) ^ nat (bitlen ?n - 1) \<le> ?n" and hi: "?n < 2 ^ nat (bitlen ?n)"
      by simp_all
    have "(2::real) powi (bitlen ?n - 1) = of_int (2 ^ nat (bitlen ?n - 1))"
      using b by (simp add: power_int_def)
    also have "\<dots> \<le> of_int ?n"
      using lo by (simp only: of_int_le_iff)
    also have "\<dots> \<le> \<bar>x\<bar>"
      by linarith
    finally have 1: "(2::real) powi (bitlen ?n - 1) \<le> \<bar>x\<bar>" .
    have "?n + 1 \<le> 2 ^ nat (bitlen ?n)"
      using hi by linarith
    then have "of_int (?n + 1) \<le> (of_int (2 ^ nat (bitlen ?n)) :: real)"
      by (simp only: of_int_le_iff)
    moreover have "\<bar>x\<bar> < of_int (?n + 1)"
      by linarith
    moreover have "(2::real) powi (bitlen ?n) = of_int (2 ^ nat (bitlen ?n))"
      using b by (simp add: power_int_def)
    ultimately have 2: "\<bar>x\<bar> < 2 powi (bitlen ?n)"
      by linarith
    from 1 2 True show ?thesis
      by (simp add: binary_exponent_def)
  next
    case False
    let ?y = "1 / \<bar>x\<bar>"
    let ?m = "\<lceil>?y\<rceil> - 1"
    have x: "0 < \<bar>x\<bar>" "\<bar>x\<bar> < 1"
      using assms False by auto
    then have y: "1 < ?y"
      by (simp add: field_simps)
    have m: "0 < ?m"
      using y by linarith
    have my: "of_int ?m < ?y" "?y \<le> of_int ?m + 1"
      by linarith+
    have b: "1 \<le> bitlen ?m"
      using m bitlen_eq_zero_iff [of ?m] bitlen_nonneg [of ?m] by linarith
    from bitlen_bounds [OF m]
    have lo: "(2::int) ^ nat (bitlen ?m - 1) \<le> ?m" and hi: "?m < 2 ^ nat (bitlen ?m)"
      by simp_all
    have "?m + 1 \<le> 2 ^ nat (bitlen ?m)"
      using hi by linarith
    then have "of_int (?m + 1) \<le> (of_int (2 ^ nat (bitlen ?m)) :: real)"
      by (simp only: of_int_le_iff)
    moreover have "(of_int (2 ^ nat (bitlen ?m)) :: real) = 2 ^ nat (bitlen ?m)"
      by simp
    moreover have "?y \<le> of_int (?m + 1)"
      using my(2) by simp
    ultimately have "?y \<le> 2 ^ nat (bitlen ?m)"
      by linarith
    then have "1 \<le> \<bar>x\<bar> * 2 ^ nat (bitlen ?m)"
      using x(1) by (simp add: field_simps)
    then have 1: "2 powi (- bitlen ?m) \<le> \<bar>x\<bar>"
      using b by (simp add: power_int_def field_simps)
    have "(of_int (2 ^ nat (bitlen ?m - 1)) :: real) \<le> of_int ?m"
      using lo by (simp only: of_int_le_iff)
    moreover have "(of_int (2 ^ nat (bitlen ?m - 1)) :: real) = 2 ^ nat (bitlen ?m - 1)"
      by simp
    ultimately have "2 ^ nat (bitlen ?m - 1) < ?y"
      using my(1) by linarith
    then have lt: "\<bar>x\<bar> * 2 ^ nat (bitlen ?m - 1) < 1"
      using x(1) by (simp add: field_simps)
    have "(2::real) powi (- bitlen ?m + 1) = inverse (2 ^ nat (bitlen ?m - 1))"
    proof -
      have "- bitlen ?m + 1 = - (bitlen ?m - 1)" by simp
      then have "(2::real) powi (- bitlen ?m + 1) = 2 powi (- (bitlen ?m - 1))" by simp
      also have "\<dots> = inverse (2 powi (bitlen ?m - 1))"
        by (rule power_int_minus)
      also have "\<dots> = inverse (2 ^ nat (bitlen ?m - 1))"
        using b by (simp add: power_int_def)
      finally show ?thesis .
    qed
    moreover have "\<bar>x\<bar> < inverse (2 ^ nat (bitlen ?m - 1))"
      using lt by (simp add: field_simps)
    ultimately have 2: "\<bar>x\<bar> < 2 powi (- bitlen ?m + 1)"
      by simp
    from 1 2 False show ?thesis
      by (simp add: binary_exponent_def)
  qed
  then show "2 powi binary_exponent x \<le> \<bar>x\<bar>" and "\<bar>x\<bar> < 2 powi (binary_exponent x + 1)"
    by simp_all
qed

lemma binary_exponent_unique:
  assumes "2 powi e \<le> \<bar>x\<bar>" "\<bar>x\<bar> < 2 powi (e + 1)"
  shows "binary_exponent x = e"
proof -
  have x: "x \<noteq> 0"
  proof
    assume "x = 0"
    then have "2 powi e \<le> (0::real)"
      using assms(1) by simp
    moreover have "0 < (2::real) powi e"
      by (rule zero_less_power_int) simp
    ultimately show False
      by linarith
  qed
  note b = binary_exponent_bounds [OF x]
  have "2 powi e < (2::real) powi (binary_exponent x + 1)"
    using assms(1) b(2) by linarith
  then have "e < binary_exponent x + 1"
    by (metis not_less one_le_numeral power_int_increasing)
  moreover have "2 powi binary_exponent x < (2::real) powi (e + 1)"
    using assms(2) b(1) by linarith
  then have "binary_exponent x < e + 1"
    by (metis not_less one_le_numeral power_int_increasing)
  ultimately show ?thesis
    by linarith
qed

lemma binary_exponent_minus [simp]: "binary_exponent (- x) = binary_exponent x"
  by (simp add: binary_exponent_def)

lemma ulp_minus [simp]: "ulp (- x) = ulp x"
  by (simp add: ulp_def)

lemma round_to_double_minus: "round_to_double (- x) = - round_to_double x"
  by (simp add: round_to_double_def sgn_minus)

lemma ulp_pos: "0 < ulp x"
  unfolding ulp_def by (rule zero_less_power_int) simp

lemma pow2_shift: "2 ^ 53 * (2::real) powi (e - 52) = 2 powi (e + 1)"
proof -
  have "(2::real) powi (e + 1) = 2 powi (53 + (e - 52))"
    by (rule arg_cong [where f = "\<lambda>k. 2 powi k"]) simp
  also have "\<dots> = 2 powi 53 * 2 powi (e - 52)"
    by (rule power_int_add) simp
  finally show ?thesis
    by simp
qed

lemma pow2_shift': "2 ^ 52 * (2::real) powi (e - 52) = 2 powi e"
proof -
  have "(2::real) powi e = 2 powi (52 + (e - 52))"
    by (rule arg_cong [where f = "\<lambda>k. 2 powi k"]) simp
  also have "\<dots> = 2 powi 52 * 2 powi (e - 52)"
    by (rule power_int_add) simp
  finally show ?thesis
    by simp
qed

lemma abs_less_ulp:
  assumes "x \<noteq> 0"
  shows "\<bar>x\<bar> < 2 ^ 53 * ulp x"
proof -
  have "\<bar>x\<bar> < 2 powi (binary_exponent x + 1)"
    by (rule binary_exponent_bounds(2) [OF assms])
  also have "\<dots> \<le> 2 powi (max (binary_exponent x) (- 1022) + 1)"
    by (rule power_int_increasing) simp_all
  finally show ?thesis
    by (simp only: ulp_def pow2_shift)
qed

lemma normal_exponent:
  assumes "2 powi (- 1022) \<le> \<bar>x\<bar>"
  shows "- 1022 \<le> binary_exponent x"
proof -
  have x: "x \<noteq> 0"
  proof
    assume "x = 0"
    then have "2 powi (- 1022) \<le> (0::real)"
      using assms by simp
    moreover have "0 < (2::real) powi (- 1022)"
      by (rule zero_less_power_int) simp
    ultimately show False
      by linarith
  qed
  have "2 powi (- 1022) < (2::real) powi (binary_exponent x + 1)"
    using assms binary_exponent_bounds(2) [OF x] by linarith
  then have "- 1022 < binary_exponent x + 1"
    by (metis not_less one_le_numeral power_int_increasing)
  then show ?thesis
    by simp
qed

lemma ulp_le_normal:
  assumes "2 powi (- 1022) \<le> \<bar>x\<bar>"
  shows "2 ^ 52 * ulp x \<le> \<bar>x\<bar>"
proof -
  have x: "x \<noteq> 0"
    using normal_exponent [OF assms] assms
    by (metis abs_zero not_le zero_less_numeral zero_less_power_int)
  have "max (binary_exponent x) (- 1022) = binary_exponent x"
    using normal_exponent [OF assms] by simp
  then have "2 ^ 52 * ulp x = 2 powi binary_exponent x"
    by (simp only: ulp_def pow2_shift')
  then show ?thesis
    using binary_exponent_bounds(1) [OF x] by simp
qed

lemma round_to_double_pos:
  assumes "0 < x"
  shows "round_to_double x = of_int (round_half_even (x / ulp x)) * ulp x"
  using assms by (simp add: round_to_double_def)

lemma round_to_double_nonneg:
  assumes "0 \<le> x"
  shows "0 \<le> round_to_double x"
proof (cases "x = 0")
  case False
  with assms have x: "0 < x" by simp
  have "0 \<le> x / ulp x"
    using x ulp_pos [of x] by simp
  then have "0 \<le> \<lfloor>x / ulp x\<rfloor>"
    by simp
  then have "0 \<le> round_half_even (x / ulp x)"
    using round_half_even_ge_floor [of "x / ulp x"] by linarith
  then show ?thesis
    using ulp_pos [of x] by (simp add: round_to_double_pos [OF x])
qed (simp add: round_to_double_def)

lemma round_to_double_pos_mono:
  assumes "0 < x" "x \<le> y"
  shows "round_to_double x \<le> round_to_double y"
proof -
  let ?ex = "max (binary_exponent x) (- 1022)"
  let ?ey = "max (binary_exponent y) (- 1022)"
  have y: "0 < y" using assms by simp
  have bx: "2 powi binary_exponent x \<le> x" "x < 2 powi (binary_exponent x + 1)"
    using binary_exponent_bounds [of x] assms(1) by simp_all
  have by': "2 powi binary_exponent y \<le> y" "y < 2 powi (binary_exponent y + 1)"
    using binary_exponent_bounds [of y] y by simp_all
  have "2 powi binary_exponent x < (2::real) powi (binary_exponent y + 1)"
    using bx(1) by'(2) assms(2) by linarith
  then have "binary_exponent x < binary_exponent y + 1"
    by (metis not_less one_le_numeral power_int_increasing)
  then have le: "?ex \<le> ?ey"
    by simp
  show ?thesis
  proof (cases "?ex = ?ey")
    case True
    then have u: "ulp x = ulp y"
      by (simp only: ulp_def)
    have "x / ulp y \<le> y / ulp y"
      using assms(2) ulp_pos [of y] by (simp add: divide_right_mono)
    then have "round_half_even (x / ulp y) \<le> round_half_even (y / ulp y)"
      by (rule round_half_even_mono)
    then have "(of_int (round_half_even (x / ulp y)) :: real) \<le> of_int (round_half_even (y / ulp y))"
      by (simp only: of_int_le_iff)
    then have "of_int (round_half_even (x / ulp y)) * ulp y
                 \<le> of_int (round_half_even (y / ulp y)) * ulp y"
      using ulp_pos [of y] by (simp add: mult_right_mono)
    then show ?thesis
      by (simp only: round_to_double_pos [OF assms(1)] round_to_double_pos [OF y] u)
  next
    case False
    with le have lt: "?ex < ?ey" by linarith
    then have ey: "?ey = binary_exponent y"
      by (simp add: max_def split: if_splits)
    have "x / ulp x \<le> 2 ^ 53"
      using abs_less_ulp [of x] assms(1) ulp_pos [of x] by (simp add: field_simps)
    then have "x / ulp x \<le> of_int (2 ^ 53)"
      by simp
    then have "round_half_even (x / ulp x) \<le> round_half_even (of_int (2 ^ 53))"
      by (rule round_half_even_mono)
    then have "round_half_even (x / ulp x) \<le> 2 ^ 53"
      by (simp only: round_half_even_of_int)
    then have "(of_int (round_half_even (x / ulp x)) :: real) \<le> of_int (2 ^ 53)"
      by (simp only: of_int_le_iff)
    then have "of_int (round_half_even (x / ulp x)) * ulp x \<le> 2 ^ 53 * ulp x"
      using ulp_pos [of x] by (simp add: mult_right_mono)
    also have "\<dots> = 2 powi (?ex + 1)"
      by (simp only: ulp_def pow2_shift)
    also have "\<dots> \<le> 2 powi ?ey"
    proof (rule power_int_increasing)
      show "?ex + 1 \<le> ?ey" using lt by linarith
    qed simp
    also have "\<dots> = 2 ^ 52 * ulp y"
      by (simp only: ulp_def pow2_shift')
    also have "\<dots> \<le> of_int (round_half_even (y / ulp y)) * ulp y"
    proof -
      have "2 powi ?ey \<le> y"
        using by'(1) ey by simp
      then have "2 ^ 52 * ulp y \<le> y"
        by (simp only: ulp_def pow2_shift')
      then have "of_int (2 ^ 52) \<le> y / ulp y"
        using ulp_pos [of y] by (simp add: field_simps)
      then have "round_half_even (of_int (2 ^ 52)) \<le> round_half_even (y / ulp y)"
        by (rule round_half_even_mono)
      then have "2 ^ 52 \<le> round_half_even (y / ulp y)"
        by (simp only: round_half_even_of_int)
      then have "(of_int (2 ^ 52) :: real) \<le> of_int (round_half_even (y / ulp y))"
        by (simp only: of_int_le_iff)
      then show ?thesis
        using ulp_pos [of y] by (simp add: mult_right_mono)
    qed
    finally show ?thesis
      by (simp only: round_to_double_pos [OF assms(1)] round_to_double_pos [OF y])
  qed
qed

lemma round_to_double_mono:
  assumes "x \<le> y"
  shows "round_to_double x \<le> round_to_double y"
proof -
  consider "0 < x" | "x \<le> 0" "0 \<le> y" | "y < 0"
    using assms by linarith
  then show ?thesis
  proof cases
    case 1
    then show ?thesis
      using assms by (rule round_to_double_pos_mono)
  next
    case 2
    have "round_to_double x = - round_to_double (- x)"
      using round_to_double_minus [of "- x"] by simp
    moreover have "0 \<le> round_to_double (- x)"
      using 2(1) by (intro round_to_double_nonneg) simp
    moreover have "0 \<le> round_to_double y"
      using 2(2) by (rule round_to_double_nonneg)
    ultimately show ?thesis
      by linarith
  next
    case 3
    have "round_to_double (- y) \<le> round_to_double (- x)"
      using 3 assms by (intro round_to_double_pos_mono) simp_all
    then show ?thesis
      by (simp add: round_to_double_minus)
  qed
qed

lemma round_to_double_error:
  assumes "2 powi (- 1022) \<le> \<bar>x\<bar>"
  shows "\<bar>round_to_double x - x\<bar> \<le> \<bar>x\<bar> / 2 ^ 53"
proof -
  have x: "x \<noteq> 0"
    using normal_exponent [OF assms] assms
    by (metis abs_zero not_le zero_less_numeral zero_less_power_int)
  let ?k = "of_int (round_half_even (\<bar>x\<bar> / ulp x)) :: real"
  have "round_to_double x - x = sgn x * (?k * ulp x) - sgn x * \<bar>x\<bar>"
    using x by (simp add: round_to_double_def sgn_mult_abs)
  also have "\<dots> = sgn x * ((?k - \<bar>x\<bar> / ulp x) * ulp x)"
    using ulp_pos [of x] by (simp add: field_simps)
  finally have "\<bar>round_to_double x - x\<bar> = \<bar>?k - \<bar>x\<bar> / ulp x\<bar> * ulp x"
    using x ulp_pos [of x] by (simp add: abs_mult abs_sgn_eq)
  also have "\<dots> \<le> 1 / 2 * ulp x"
    using round_half_even_error [of "\<bar>x\<bar> / ulp x"] ulp_pos [of x]
    by (intro mult_right_mono) simp_all
  also have "\<dots> \<le> \<bar>x\<bar> / 2 ^ 53"
    using ulp_le_normal [OF assms] by simp
  finally show ?thesis .
qed

lemma double_below_one:
  assumes "round_to_double f = f" "0 \<le> f" "f < 1"
  shows "f \<le> 1 - 1 / 2 ^ 53"
proof (cases "f < 1 / 2")
  case True
  then show ?thesis by simp
next
  case False
  then have f: "0 < f" "1 / 2 \<le> f" by simp_all
  have "binary_exponent f = - 1"
    using f assms(3) by (intro binary_exponent_unique) simp_all
  then have "ulp f = 2 powi (- 53)"
    by (simp add: ulp_def)
  also have "\<dots> = 1 / 2 ^ 53"
    by (simp only: power_int_minus_divide power_int_numeral)
  finally have u: "ulp f = 1 / 2 ^ 53" .
  let ?k = "round_half_even (f / ulp f)"
  have fk: "f = of_int ?k / 2 ^ 53"
    using assms(1) f(1) by (simp add: round_to_double_pos u)
  then have "of_int ?k < (2 ^ 53 :: real)"
    using assms(3) by (simp add: field_simps)
  then have "of_int ?k < (of_int (2 ^ 53) :: real)"
    by simp
  then have "?k < 2 ^ 53"
    by (simp only: of_int_less_iff)
  then have "?k \<le> 2 ^ 53 - 1"
    by simp
  then have "(of_int ?k :: real) \<le> of_int (2 ^ 53 - 1)"
    by (simp only: of_int_le_iff)
  then have "of_int ?k / 2 ^ 53 \<le> (2 ^ 53 - 1) / (2 ^ 53 :: real)"
    by (simp add: divide_right_mono)
  then show ?thesis
    using fk by (simp add: field_simps)
qed

lemma round_to_double_zero [simp]: "round_to_double 0 = 0"
  by (simp add: round_to_double_def)


lemma round_to_double_pow2:
  assumes "- 1022 \<le> e"
  shows "round_to_double (2 powi e) = 2 powi e"
proof -
  have pos: "0 < (2::real) powi e"
    by (rule zero_less_power_int) simp
  have "binary_exponent (2 powi e) = e"
  proof (rule binary_exponent_unique)
    show "2 powi e \<le> \<bar>2 powi e :: real\<bar>"
      by simp
    show "\<bar>2 powi e :: real\<bar> < 2 powi (e + 1)"
      using pos power_int_strict_increasing [of e "e + 1" "2::real"] by simp
  qed
  then have u: "ulp (2 powi e) = 2 powi (e - 52)"
    using assms by (simp add: ulp_def)
  have "(2::real) powi e / 2 powi (e - 52) = of_int (2 ^ 52)"
    using pow2_shift' [of e] zero_less_power_int [of "2::real" "e - 52"]
    by (simp add: field_simps)
  then have "round_half_even ((2::real) powi e / 2 powi (e - 52)) = 2 ^ 52"
    by (simp only: round_half_even_of_int)
  then show ?thesis
    using pos pow2_shift' [of e] by (simp add: round_to_double_pos u)
qed

lemma round_to_double_values:
  "round_to_double 1 = 1" "round_to_double 2 = 2" "round_to_double (- 1) = - 1"
  "round_to_double (2 ^ 61) = 2 ^ 61" "round_to_double (2 ^ 62) = 2 ^ 62"
proof -
  show "round_to_double 1 = 1"
    using round_to_double_pow2 [of 0] by simp
  then show "round_to_double (- 1) = - 1"
    using round_to_double_minus [of 1] by simp
  show "round_to_double 2 = 2"
    using round_to_double_pow2 [of 1] by simp
  show "round_to_double (2 ^ 61) = 2 ^ 61"
    using round_to_double_pow2 [of 61] by simp
  show "round_to_double (2 ^ 62) = 2 ^ 62"
    using round_to_double_pow2 [of 62] by simp
qed

lemma round_to_double_lower:
  assumes "0 \<le> x" "x = 0 \<or> 2 powi (- 1022) \<le> x"
  shows "x * (1 - 1 / 2 ^ 53) \<le> round_to_double x"
proof (cases "x = 0")
  case False
  with assms have "2 powi (- 1022) \<le> \<bar>x\<bar>" by simp
  from round_to_double_error [OF this] assms(1)
  have "\<bar>round_to_double x - x\<bar> \<le> x / 2 ^ 53"
    by simp
  moreover have "x * (1 - 1 / 2 ^ 53) = x - x / 2 ^ 53"
    by (simp add: algebra_simps)
  ultimately show ?thesis
    by linarith
qed simp

lemma round_to_double_upper:
  assumes "0 \<le> x" "x = 0 \<or> 2 powi (- 1022) \<le> x"
  shows "round_to_double x \<le> x * (1 + 1 / 2 ^ 53)"
proof (cases "x = 0")
  case False
  with assms have "2 powi (- 1022) \<le> \<bar>x\<bar>" by simp
  from round_to_double_error [OF this] assms(1)
  have "\<bar>round_to_double x - x\<bar> \<le> x / 2 ^ 53"
    by simp
  moreover have "x * (1 + 1 / 2 ^ 53) = x + x / 2 ^ 53"
    by (simp add: algebra_simps)
  ultimately show ?thesis
    by linarith
qed simp

lemma tiny_le:
  assumes "1 / 2 ^ 60 \<le> (x::real)"
  shows "2 powi (- 1022) \<le> x"
proof -
  have "(2::real) powi (- 1022) \<le> 2 powi (- 60)"
    by (rule power_int_increasing) simp_all
  also have "\<dots> = 1 / 2 ^ 60"
    by (simp only: power_int_minus_divide power_int_numeral)
  finally show ?thesis
    using assms by linarith
qed

text \<open>The product that both smearing functions compute.\<close>

lemma smear_product_bounds:
  fixes n :: int and f r :: real
  assumes n: "0 \<le> n" "n \<le> 2 ^ 61" and f: "is_double f" "0 \<le> f" "f \<le> 1"
    and r: "0 \<le> r" "r \<le> 1"
  defines "p \<equiv> round_to_double (round_to_double (of_int n)
             * round_to_double (1 + round_to_double (f * round_to_double (round_to_double (2 * r) - 1))))"
  shows "0 \<le> p" and "p \<le> 2 ^ 62"
    and "of_int n * (1 - f) * (1 - 1 / 2 ^ 51) \<le> p"
    and "p \<le> of_int n * (1 + f) * (1 + 1 / 2 ^ 51)"
proof -
  let ?eps = "1 / 2 ^ 53 :: real"
  let ?t = "round_to_double (round_to_double (2 * r) - 1)"
  let ?u = "round_to_double (f * ?t)"
  let ?v = "round_to_double (1 + ?u)"
  let ?n = "round_to_double (of_int n)"
  have ff: "round_to_double f = f"
    using f(1) by (simp add: is_double_def)
  have "0 \<le> round_to_double (2 * r)" "round_to_double (2 * r) \<le> 2"
    using round_to_double_mono [of 0 "2 * r"] round_to_double_mono [of "2 * r" 2] r
    by (simp_all add: round_to_double_values)
  then have t: "- 1 \<le> ?t" "?t \<le> 1"
    using round_to_double_mono [of "- 1" "round_to_double (2 * r) - 1"]
      round_to_double_mono [of "round_to_double (2 * r) - 1" 1]
    by (simp_all add: round_to_double_values)
  have "f * ?t \<le> f * 1" "f * (- 1) \<le> f * ?t"
    using t f(2) by (intro mult_left_mono; simp)+
  then have "f * ?t \<le> f" "- f \<le> f * ?t"
    by simp_all
  then have u: "- f \<le> ?u" "?u \<le> f"
    using round_to_double_mono [of "f * ?t" f] round_to_double_mono [of "- f" "f * ?t"]
    by (simp_all add: ff round_to_double_minus)
  have v: "round_to_double (1 - f) \<le> ?v" "?v \<le> round_to_double (1 + f)"
    using u round_to_double_mono [of "1 - f" "1 + ?u"] round_to_double_mono [of "1 + ?u" "1 + f"]
    by simp_all
  have vhi: "round_to_double (1 + f) \<le> (1 + f) * (1 + ?eps)"
    using f(2) by (intro round_to_double_upper disjI2 tiny_le) simp_all
  have vlo: "(1 - f) * (1 - ?eps) \<le> round_to_double (1 - f)"
  proof (cases "f = 1")
    case False
    then have "f \<le> 1 - 1 / 2 ^ 53"
      using double_below_one [OF ff f(2)] f(3) by simp
    then have "1 / 2 ^ 60 \<le> 1 - f"
      by simp
    then show ?thesis
      using f(3) by (intro round_to_double_lower disjI2 tiny_le) simp_all
  qed simp
  have v0: "0 \<le> round_to_double (1 - f)"
    using f(3) by (intro round_to_double_nonneg) simp
  have v2: "round_to_double (1 + f) \<le> 2"
    using round_to_double_mono [of "1 + f" 2] f(3) by (simp add: round_to_double_values)
  have n0: "0 \<le> ?n"
    using n(1) by (intro round_to_double_nonneg) simp
  have n61: "?n \<le> 2 ^ 61"
  proof -
    have "(of_int n :: real) \<le> of_int (2 ^ 61)"
      using n(2) by (simp only: of_int_le_iff)
    then have "(of_int n :: real) \<le> 2 ^ 61"
      by simp
    from round_to_double_mono [OF this] show ?thesis
      by (simp only: round_to_double_values)
  qed
  have nn: "n = 0 \<or> 1 \<le> (of_int n :: real)"
    using n(1) by (cases "n = 0") simp_all
  have nlo: "of_int n * (1 - ?eps) \<le> ?n"
    using n(1) nn by (intro round_to_double_lower) (auto intro: tiny_le)
  have nhi: "?n \<le> of_int n * (1 + ?eps)"
    using n(1) nn by (intro round_to_double_upper) (auto intro: tiny_le)
  let ?L = "of_int n * (1 - ?eps) * ((1 - f) * (1 - ?eps))"
  let ?U = "of_int n * (1 + ?eps) * ((1 + f) * (1 + ?eps))"
  have L0: "0 \<le> ?L"
    using n(1) f(3) by simp
  have "?L \<le> ?n * round_to_double (1 - f)"
    using nlo vlo n(1) f(3) by (intro mult_mono) simp_all
  also have "\<dots> \<le> ?n * ?v"
    using v(1) n0 by (rule mult_left_mono)
  finally have L: "?L \<le> ?n * ?v" .
  have "?n * ?v \<le> ?n * round_to_double (1 + f)"
    using v(2) n0 by (rule mult_left_mono)
  also have "\<dots> \<le> ?U"
    using nhi vhi n0 v0 v f(2) by (intro mult_mono) simp_all
  finally have U: "?n * ?v \<le> ?U" .
  have p: "p = round_to_double (?n * ?v)"
    by (simp add: p_def)
  show "0 \<le> p"
    unfolding p using round_to_double_mono [OF order_trans [OF L0 L]] by simp
  have "?n * ?v \<le> 2 ^ 61 * 2"
    using n61 n0 v(2) v2 v0 v(1) by (intro mult_mono) simp_all
  then have "?n * ?v \<le> 2 ^ 62"
    by simp
  from round_to_double_mono [OF this] show "p \<le> 2 ^ 62"
    unfolding p by (simp only: round_to_double_values)
  have Lnormal: "?L = 0 \<or> 2 powi (- 1022) \<le> ?L"
  proof (cases "n = 0 \<or> f = 1")
    case True
    then show ?thesis by auto
  next
    case False
    then have "1 \<le> (of_int n :: real)" "f \<le> 1 - 1 / 2 ^ 53"
      using nn double_below_one [OF ff f(2)] f(3) by simp_all
    then have "1 * (1 - ?eps) * (1 / 2 ^ 53 * (1 - ?eps)) \<le> ?L"
      by (intro mult_mono) simp_all
    moreover have "1 / 2 ^ 60 \<le> 1 * (1 - ?eps) * (1 / 2 ^ 53 * (1 - ?eps))"
      by simp
    ultimately have "1 / 2 ^ 60 \<le> ?L"
      by linarith
    then show ?thesis
      by (intro disjI2 tiny_le)
  qed
  have "of_int n * (1 - f) * (1 - 1 / 2 ^ 51) \<le> ?L * (1 - ?eps)"
  proof -
    have "of_int n * (1 - f) * (1 - 1 / 2 ^ 51)
            \<le> of_int n * (1 - f) * ((1 - ?eps) * (1 - ?eps) * (1 - ?eps))"
      using n(1) f(3) by (intro mult_left_mono) simp_all
    then show ?thesis
      by (simp add: mult_ac)
  qed
  also have "\<dots> \<le> round_to_double ?L"
    using L0 Lnormal by (rule round_to_double_lower)
  also have "\<dots> \<le> p"
    unfolding p using L by (rule round_to_double_mono)
  finally show "of_int n * (1 - f) * (1 - 1 / 2 ^ 51) \<le> p" .
  have U0: "0 \<le> ?U"
    using n(1) f(2) by simp
  have Unormal: "?U = 0 \<or> 2 powi (- 1022) \<le> ?U"
  proof (cases "n = 0")
    case True
    then show ?thesis by simp
  next
    case False
    then have "1 \<le> (of_int n :: real)"
      using nn by simp
    then have "1 * 1 * (1 * 1) \<le> ?U"
      using f(2) by (intro mult_mono) simp_all
    then have "1 / 2 ^ 60 \<le> ?U"
      by simp
    then show ?thesis
      by (intro disjI2 tiny_le)
  qed
  have "p \<le> round_to_double ?U"
    unfolding p using U by (rule round_to_double_mono)
  also have "\<dots> \<le> ?U * (1 + ?eps)"
    using U0 Unormal by (rule round_to_double_upper)
  also have "\<dots> \<le> of_int n * (1 + f) * (1 + 1 / 2 ^ 51)"
  proof -
    have "of_int n * (1 + f) * ((1 + ?eps) * (1 + ?eps) * (1 + ?eps))
            \<le> of_int n * (1 + f) * (1 + 1 / 2 ^ 51)"
      using n(1) f(2) by (intro mult_left_mono) simp_all
    then show ?thesis
      by (simp add: mult_ac)
  qed
  finally show "p \<le> of_int n * (1 + f) * (1 + 1 / 2 ^ 51)" .
qed

lemma static_cast_int64_floor:
  assumes "0 \<le> p" "p \<le> 2 ^ 62"
  shows "static_cast_int64 p = Inr \<lfloor>p\<rfloor>"
proof -
  have "0 \<le> \<lfloor>p\<rfloor>"
    using assms(1) by simp
  moreover have "\<lfloor>p\<rfloor> \<le> 2 ^ 62"
  proof -
    have "p \<le> of_int (2 ^ 62)"
      using assms(2) by simp
    then have "\<lfloor>p\<rfloor> \<le> \<lfloor>of_int (2 ^ 62) :: real\<rfloor>"
      by (rule floor_mono)
    then show ?thesis
      by (simp only: floor_of_int)
  qed
  ultimately show ?thesis
    using assms(1) by (simp add: static_cast_int64_def)
qed

lemma tdiv_nonneg: "0 \<le> a \<Longrightarrow> 0 < b \<Longrightarrow> tdiv a b = a div b"
  by (simp add: tdiv_def sgn_if)

lemma InMilliseconds_bounds:
  assumes "0 \<le> d" "d \<le> 2 ^ 61"
  shows "0 \<le> InMilliseconds d" and "InMilliseconds d \<le> 2 ^ 61"
proof -
  have m: "InMilliseconds d = d div 1000"
    using assms(1) by (simp add: InMilliseconds_def kMicrosecondsPerMillisecond_def tdiv_nonneg)
  show "0 \<le> InMilliseconds d"
    using assms(1) by (simp add: m)
  have "d div 1000 \<le> d"
    using zdiv_mono2 [of d 1 1000] assms(1) by simp
  then show "InMilliseconds d \<le> 2 ^ 61"
    using assms(2) by (simp add: m)
qed


section \<open>Properties of smearing\<close>

lemma smeared_value:
  fixes n :: int and f r :: real
  assumes "0 \<le> n" "n \<le> 2 ^ 61" "is_double f" "0 \<le> f" "f \<le> 1" "0 \<le> r" "r \<le> 1"
  defines "p \<equiv> double_mul (double_of_int n)
                   (double_add 1 (double_mul f (double_sub (double_mul 2 r) 1)))"
  shows "static_cast_int64 p = Inr \<lfloor>p\<rfloor>"
    and "of_int n * (1 - f) * (1 - 1 / 2 ^ 51) - 1 < of_int \<lfloor>p\<rfloor>"
    and "of_int \<lfloor>p\<rfloor> \<le> of_int n * (1 + f) * (1 + 1 / 2 ^ 51)"
    and "0 \<le> \<lfloor>p\<rfloor>"
proof -
  have p: "p = round_to_double (round_to_double (of_int n)
             * round_to_double (1 + round_to_double (f * round_to_double (round_to_double (2 * r) - 1))))"
    by (simp add: p_def double_mul_def double_add_def double_sub_def double_of_int_def)
  note b = smear_product_bounds [OF assms(1-7), folded p]
  show "static_cast_int64 p = Inr \<lfloor>p\<rfloor>"
    using b(1,2) by (rule static_cast_int64_floor)
  show "0 \<le> \<lfloor>p\<rfloor>"
    using b(1) by simp
  have "p - 1 < of_int \<lfloor>p\<rfloor>" "of_int \<lfloor>p\<rfloor> \<le> p"
    by linarith+
  with b(3,4) show "of_int n * (1 - f) * (1 - 1 / 2 ^ 51) - 1 < of_int \<lfloor>p\<rfloor>"
    and "of_int \<lfloor>p\<rfloor> \<le> of_int n * (1 + f) * (1 + 1 / 2 ^ 51)"
    by linarith+
qed

lemma smeared_milliseconds_range:
  fixes y d :: int and f :: real
  assumes "0 \<le> d" "d \<le> 2 ^ 61" "0 \<le> f" "f \<le> 1"
    and "of_int y \<le> of_int (InMilliseconds d) * (1 + f) * (1 + 1 / 2 ^ 51)"
  shows "FromMilliseconds y < 2 ^ 63"
proof -
  let ?m = "InMilliseconds d"
  have m: "?m = d div 1000"
    using assms(1) by (simp add: InMilliseconds_def kMicrosecondsPerMillisecond_def tdiv_nonneg)
  have m0: "0 \<le> ?m"
    using assms(1) by (simp add: m)
  have "?m * 1000 \<le> d"
    unfolding m using div_mult_mod_eq [of d 1000] pos_mod_sign [of 1000 d] by linarith
  then have "?m * 1000 \<le> 2 ^ 61"
    using assms(2) by linarith
  then have "(of_int (?m * 1000) :: real) \<le> of_int (2 ^ 61)"
    by (simp only: of_int_le_iff)
  then have md: "(of_int ?m :: real) * 1000 \<le> 2 ^ 61"
    by simp
  have "of_int ?m * (1 + f) \<le> (of_int ?m :: real) * 2"
    using m0 assms(4) by (intro mult_left_mono) simp_all
  then have "of_int ?m * (1 + f) * (1 + 1 / 2 ^ 51) \<le> (of_int ?m :: real) * 2 * (1 + 1 / 2 ^ 51)"
    by (intro mult_right_mono) simp_all
  then have "(of_int y :: real) * 1000 \<le> of_int ?m * 1000 * (2 * (1 + 1 / 2 ^ 51))"
    using assms(5) by (simp add: mult_ac)
  also have "\<dots> \<le> 2 ^ 61 * (2 * (1 + 1 / 2 ^ 51))"
    using md by (intro mult_right_mono) simp_all
  also have "\<dots> < 2 ^ 63"
    by simp
  finally have "(of_int (y * 1000) :: real) < of_int (2 ^ 63)"
    by simp
  then have "y * 1000 < 2 ^ 63"
    by (simp only: of_int_less_iff)
  then show ?thesis
    by (simp add: FromMilliseconds_def kMicrosecondsPerMillisecond_def)
qed

lemma SmearDelay_product:
  assumes "0 \<le> f" "f \<le> 1"
  shows "SmearDelay d f r =
           static_cast_int64 (double_mul (double_of_int d)
             (double_add 1 (double_mul f (double_sub (double_mul 2 r) 1))))"
proof -
  have "double_add (double_mul f (double_sub (double_mul 2 r) 1)) 1
          = double_add 1 (double_mul f (double_sub (double_mul 2 r) 1))"
    by (simp add: double_add_def add.commute)
  then show ?thesis
    using assms
    by (simp add: SmearDelay_def FromMicroseconds_def InMicroseconds_def and_then_def
        split: sum.splits)
qed

lemma GetSmearedDelay_product:
  "GetSmearedDelay \<lparr> smear_fraction = f \<rparr> r d =
     and_then
       (static_cast_int64 (double_mul (double_of_int (InMilliseconds d))
          (double_add 1 (double_mul f (double_sub (double_mul 2 r) 1)))))
       (\<lambda>ms. Inr (FromMilliseconds ms))"
proof -
  have "double_mul (double_sub (double_mul 2 r) 1) f
          = double_mul f (double_sub (double_mul 2 r) 1)"
    by (simp add: double_mul_def mult.commute)
  then show ?thesis
    by (simp add: GetSmearedDelay_def)
qed

lemma SmearDelay_returns:
  assumes "0 \<le> d" "d \<le> 2 ^ 61" "is_double f" "0 \<le> f" "f \<le> 1" "0 \<le> r" "r \<le> 1"
  shows "\<exists>x. SmearDelay d f r = Inr x"
  using SmearDelay_product [OF assms(4,5), of d r] smeared_value(1) [OF assms] by simp

lemma Smearer_default_fraction:
  "smear_fraction Smearer_default = round_to_double (1 / 5)"
  "\<bar>smear_fraction Smearer_default - 1 / 5\<bar> \<le> 1 / 2 ^ 55"
  by code_simp+

text \<open>
  C8, as the code has it. The smeared delay is \<open>d * (1 + f * (2 * r - 1))\<close> computed in
  double-precision arithmetic, every operation rounded, and then truncated to a whole
  number of the unit the function works in. So it can miss the interval
  \<open>[d * (1 - f), d * (1 + f)]\<close> on both sides: below by the truncation and the rounding,
  above by the rounding. For a delay \<open>d\<close> of at least zero and at most \<open>2\<^sup>6\<^sup>1\<close>
  microseconds (beyond \<open>2\<^sup>6\<^sup>2\<close> the product may leave the range of \<open>int64\<close>), a smear
  fraction \<open>f\<close> that is a double in \<open>[0, 1]\<close> and a number drawn \<open>r\<close> in \<open>[0, 1]\<close>:
  \<^item> \<open>InvalidationClientImpl::SmearDelay\<close> passes its two checks and returns the whole
    part \<open>x\<close> of that product, in microseconds, with
    \<open>d * (1 - f) * (1 - 2\<^sup>-\<^sup>5\<^sup>1) - 1 < x \<le> d * (1 + f) * (1 + 2\<^sup>-\<^sup>5\<^sup>1)\<close>;
  \<^item> \<open>Smearer::GetSmearedDelay\<close> works on the whole milliseconds \<open>m\<close> of the delay and
    returns the whole part \<open>y\<close> of its product, in milliseconds, with
    \<open>m * (1 - f) * (1 - 2\<^sup>-\<^sup>5\<^sup>1) - 1 < y \<le> m * (1 + f) * (1 + 2\<^sup>-\<^sup>5\<^sup>1)\<close>;
  \<^item> both results are not negative and below \<open>2\<^sup>6\<^sup>3\<close> microseconds, so they are values
    of the \<open>int64\<close> that a \<open>TimeDelta\<close> holds;
  \<^item> the default smear fraction of a \<open>Smearer\<close> is the double nearest to \<open>0.20\<close>, which
    differs from it by less than \<open>2\<^sup>-\<^sup>5\<^sup>5\<close>.
\<close>

theorem smeared_delay_within_truncated_interval:
  assumes "0 \<le> d" "d \<le> 2 ^ 61" "is_double f" "0 \<le> f" "f \<le> 1" "0 \<le> r" "r \<le> 1"
  shows "(\<exists>x. SmearDelay d f r = Inr x
            \<and> x = \<lfloor>double_mul (double_of_int d)
                      (double_add (double_mul f (double_sub (double_mul 2 r) 1)) 1)\<rfloor>
            \<and> real_of_int d * (1 - f) * (1 - 1 / 2 ^ 51) - 1 < real_of_int x
            \<and> real_of_int x \<le> real_of_int d * (1 + f) * (1 + 1 / 2 ^ 51)
            \<and> 0 \<le> x \<and> x < 2 ^ 63)
       \<and> (\<exists>y. GetSmearedDelay \<lparr> smear_fraction = f \<rparr> r d = Inr (FromMilliseconds y)
            \<and> y = \<lfloor>double_mul (double_of_int (InMilliseconds d))
                      (double_add 1 (double_mul (double_sub (double_mul 2 r) 1) f))\<rfloor>
            \<and> real_of_int (InMilliseconds d) * (1 - f) * (1 - 1 / 2 ^ 51) - 1 < real_of_int y
            \<and> real_of_int y \<le> real_of_int (InMilliseconds d) * (1 + f) * (1 + 1 / 2 ^ 51)
            \<and> 0 \<le> y \<and> FromMilliseconds y < 2 ^ 63)
       \<and> smear_fraction Smearer_default = round_to_double (1 / 5)
       \<and> \<bar>smear_fraction Smearer_default - 1 / 5\<bar> \<le> 1 / 2 ^ 55"
proof (intro conjI)
  let ?p = "double_mul (double_of_int d)
              (double_add 1 (double_mul f (double_sub (double_mul 2 r) 1)))"
  have c: "double_add (double_mul f (double_sub (double_mul 2 r) 1)) 1
          = double_add 1 (double_mul f (double_sub (double_mul 2 r) 1))"
    by (simp add: double_add_def add.commute)
  note v = smeared_value [OF assms]
  have "SmearDelay d f r = Inr \<lfloor>?p\<rfloor>"
    using SmearDelay_product [OF assms(4,5), of d r] v(1) by simp
  moreover have "\<lfloor>?p\<rfloor> < 2 ^ 63"
    using v(1) by (auto simp: static_cast_int64_def Let_def split: if_splits)
  ultimately show "\<exists>x. SmearDelay d f r = Inr x
            \<and> x = \<lfloor>double_mul (double_of_int d)
                      (double_add (double_mul f (double_sub (double_mul 2 r) 1)) 1)\<rfloor>
            \<and> real_of_int d * (1 - f) * (1 - 1 / 2 ^ 51) - 1 < real_of_int x
            \<and> real_of_int x \<le> real_of_int d * (1 + f) * (1 + 1 / 2 ^ 51)
            \<and> 0 \<le> x \<and> x < 2 ^ 63"
    using v(2,3,4) unfolding c by blast
next
  let ?m = "InMilliseconds d"
  let ?p = "double_mul (double_of_int ?m)
              (double_add 1 (double_mul f (double_sub (double_mul 2 r) 1)))"
  have c: "double_mul (double_sub (double_mul 2 r) 1) f
          = double_mul f (double_sub (double_mul 2 r) 1)"
    by (simp add: double_mul_def mult.commute)
  note v = smeared_value [OF InMilliseconds_bounds [OF assms(1,2)] assms(3-7)]
  have "GetSmearedDelay \<lparr> smear_fraction = f \<rparr> r d = Inr (FromMilliseconds \<lfloor>?p\<rfloor>)"
    using v(1) by (simp add: GetSmearedDelay_product and_then_def)
  moreover have "FromMilliseconds \<lfloor>?p\<rfloor> < 2 ^ 63"
    using assms(1,2,4,5) v(3) by (rule smeared_milliseconds_range)
  ultimately show "\<exists>y. GetSmearedDelay \<lparr> smear_fraction = f \<rparr> r d = Inr (FromMilliseconds y)
            \<and> y = \<lfloor>double_mul (double_of_int (InMilliseconds d))
                      (double_add 1 (double_mul (double_sub (double_mul 2 r) 1) f))\<rfloor>
            \<and> real_of_int (InMilliseconds d) * (1 - f) * (1 - 1 / 2 ^ 51) - 1 < real_of_int y
            \<and> real_of_int y \<le> real_of_int (InMilliseconds d) * (1 + f) * (1 + 1 / 2 ^ 51)
            \<and> 0 \<le> y \<and> FromMilliseconds y < 2 ^ 63"
    using v(2,3,4) unfolding c by blast
next
  show "smear_fraction Smearer_default = round_to_double (1 / 5)"
    by (rule Smearer_default_fraction(1))
  show "\<bar>smear_fraction Smearer_default - 1 / 5\<bar> \<le> 1 / 2 ^ 55"
    by (rule Smearer_default_fraction(2))
qed

text \<open>The theorem at a delay of one second, the double nearest to \<open>0.2\<close> as the fraction
  and the draw \<open>0.75\<close>: both functions return 1.1 seconds. With a delay of 100
  microseconds and the draw \<open>0.875\<close> the rounded product lies just below 115, and
  \<open>SmearDelay\<close> returns 114.\<close>

theorem smeared_delay_within_truncated_interval_witness:
  "is_double (round_to_double (1 / 5))
   \<and> SmearDelay 1000000 (round_to_double (1 / 5)) (3 / 4) = Inr 1100000
   \<and> GetSmearedDelay \<lparr> smear_fraction = round_to_double (1 / 5) \<rparr> (3 / 4) 1000000
       = Inr 1100000
   \<and> SmearDelay 100 (round_to_double (1 / 5)) (7 / 8) = Inr 114
   \<and> smear_fraction Smearer_default = round_to_double (1 / 5)"
proof -
  have f: "is_double (round_to_double (1 / 5))" "0 \<le> round_to_double (1 / 5)"
    "round_to_double (1 / 5) \<le> 1"
    by code_simp+
  have v: "SmearDelay 1000000 (round_to_double (1 / 5)) (3 / 4) = Inr 1100000"
    "GetSmearedDelay \<lparr> smear_fraction = round_to_double (1 / 5) \<rparr> (3 / 4) 1000000
       = Inr 1100000"
    "SmearDelay 100 (round_to_double (1 / 5)) (7 / 8) = Inr 114"
    by code_simp+
  from smeared_delay_within_truncated_interval [OF _ _ f, of 1000000 "3 / 4"] f(1) v
  show ?thesis
    by simp
qed

text \<open>C8 as the specification states it fails on both sides. A delay of one microsecond
  smeared by \<open>0.5\<close> with the draw \<open>0\<close> gives \<open>0.5\<close>, which the cast truncates to zero
  microseconds, below \<open>d * (1 - f) = 0.5\<close>. A delay of ten microseconds smeared by the
  double nearest to \<open>0.3\<close>, which is smaller than \<open>0.3\<close>, with the draw \<open>1\<close> gives 13
  microseconds, above \<open>d * (1 + f)\<close>: the sum \<open>1 + f\<close> is rounded up to the double nearest
  to \<open>1.3\<close>.\<close>

theorem SmearDelay_outside_interval:
  "SmearDelay 1 (1 / 2) 0 = Inr 0
   \<and> \<not> (real_of_int 1 * (1 - 1 / 2) \<le> real_of_int 0)
   \<and> is_double (round_to_double (3 / 10))
   \<and> SmearDelay 10 (round_to_double (3 / 10)) 1 = Inr 13
   \<and> \<not> (real_of_int 13 \<le> real_of_int 10 * (1 + round_to_double (3 / 10)))"
  by code_simp

text \<open>Values used in the examples further on.\<close>

lemma SmearDelay_example:
  "SmearDelay 500000 (round_to_double (1 / 5)) (3 / 4) = Inr 550000"
  by code_simp

lemma GetSmearedDelay_example:
  "GetSmearedDelay Smearer_default (1 / 2) 1000000 = Inr 1000000"
  by code_simp

section \<open>Properties of the OperationScheduler\<close>

lemma inv_init: "one_task_per_pending OperationScheduler_init"
  by (simp add: one_task_per_pending_def outstanding_def pending_def OperationScheduler_init_def)

lemma SetOperation_frame:
  assumes "SetOperation d operation n s = Inr s'"
  shows "outstanding x s' = outstanding x s" and "pending x s' = pending x s"
  using assms
  by (auto simp: outstanding_def pending_def SetOperation_def OperationScheduleInfo_init_def
      split: if_splits)

lemma ChangeDelayForTest_frame:
  assumes "ChangeDelayForTest operation d s = Inr s'"
  shows "outstanding x s' = outstanding x s" and "pending x s' = pending x s"
  using assms
  by (auto simp: outstanding_def pending_def ChangeDelayForTest_def
      split: option.splits if_splits)

lemma Schedule_pending:
  assumes "pending operation s"
  shows "Schedule r operation s = Inr s"
  using assms by (auto simp: pending_def Schedule_def split: option.splits)

lemma Schedule_not_pending:
  assumes "operations s operation = Some op_info" "\<not> has_been_scheduled op_info"
  shows "Schedule r operation s =
           and_then (GetSmearedDelay (smearer s) r (delay op_info))
             (\<lambda>smeared.
                Inr (s\<lparr> operations :=
                          (operations s)(operation \<mapsto> op_info\<lparr> has_been_scheduled := True \<rparr>),
                        scheduler_tasks := scheduler_tasks s @
                          [(smeared, RunAndClearScheduled_task operation)] \<rparr>))"
  using assms by (simp add: Schedule_def)

lemma Schedule_frame:
  assumes "Schedule r operation s = Inr s'"
  shows "outstanding x s' =
           (if x = operation \<and> \<not> pending operation s then Suc (outstanding x s)
            else outstanding x s)"
    and "pending x s' = (x = operation \<or> pending x s)"
  using assms
  by (auto simp: outstanding_def pending_def Schedule_def Let_def and_then_def
      split: option.splits if_splits sum.splits)

lemma inv_Schedule:
  assumes "one_task_per_pending s" "Schedule r operation s = Inr s'"
  shows "one_task_per_pending s'"
  using assms(1) unfolding one_task_per_pending_def
  by (auto simp: Schedule_frame [OF assms(2)])

lemma inv_Closure_Run:
  "one_task_per_pending s \<Longrightarrow> Closure_Run schedule_calls s = Inr s' \<Longrightarrow> one_task_per_pending s'"
proof (induction schedule_calls arbitrary: s)
  case Nil
  then show ?case by simp
next
  case (Cons c schedule_calls)
  obtain operation r where c: "c = (operation, r)" by (cases c)
  from Cons.prems(2) obtain s1 where s1: "Schedule r operation s = Inr s1"
    and rest: "Closure_Run schedule_calls s1 = Inr s'"
    by (auto simp: c and_then_def split: sum.splits)
  from inv_Schedule [OF Cons.prems(1) s1] rest show ?case
    by (rule Cons.IH)
qed

lemma filter_remove_nth:
  assumes "i < length xs"
  shows "length (filter P xs) =
           (if P (xs ! i) then 1 else 0) + length (filter P (take i xs @ drop (Suc i) xs))"
proof -
  have "xs = take i xs @ xs ! i # drop (Suc i) xs"
    using assms(1) by (simp add: id_take_nth_drop)
  then have "length (filter P xs) = length (filter P (take i xs @ xs ! i # drop (Suc i) xs))"
    by simp
  then show ?thesis by simp
qed

lemma inv_clear:
  assumes inv: "one_task_per_pending s" and i: "i < length (scheduler_tasks s)"
    and t: "snd (scheduler_tasks s ! i) = RunAndClearScheduled_task closure"
  shows "one_task_per_pending
           ((take_task i s)\<lparr> operations := (operations (take_task i s))(closure :=
                  map_option (\<lambda>info. info\<lparr> has_been_scheduled := False \<rparr>)
                    (operations (take_task i s) closure)) \<rparr>)"
    (is "one_task_per_pending ?s'")
  unfolding one_task_per_pending_def
proof
  fix x
  have o: "outstanding x s = (if pending x s then 1 else 0)"
    using inv by (simp add: one_task_per_pending_def)
  have out: "outstanding x s = (if x = closure then 1 else 0) + outstanding x ?s'"
    using filter_remove_nth [OF i, of "\<lambda>t. snd t = RunAndClearScheduled_task x"] t
    by (auto simp: outstanding_def take_task_def)
  have pen: "pending x ?s' = (x \<noteq> closure \<and> pending x s)"
    by (auto simp: pending_def take_task_def split: option.splits)
  show "outstanding x ?s' = (if pending x ?s' then 1 else 0)"
    using o out pen by (auto split: if_splits)
qed

lemma inv_scheduler_run_task:
  assumes "one_task_per_pending s" "scheduler_run_task body i s = Inr s'"
  shows "one_task_per_pending s'"
proof (cases "i < length (scheduler_tasks s)")
  case False
  with assms show ?thesis by (simp add: scheduler_run_task_def)
next
  case True
  obtain closure where t: "snd (scheduler_tasks s ! i) = RunAndClearScheduled_task closure"
    by (cases "snd (scheduler_tasks s ! i)") auto
  from assms(2) True t
  have run: "Closure_Run (body closure)
     ((take_task i s)\<lparr> operations := (operations (take_task i s))(closure :=
                  map_option (\<lambda>info. info\<lparr> has_been_scheduled := False \<rparr>)
                    (operations (take_task i s) closure)) \<rparr>) = Inr s'"
    by (simp add: scheduler_run_task_def RunAndClearScheduled_def take_task_def)
  from inv_Closure_Run [OF inv_clear [OF assms(1) True t] run] show ?thesis .
qed

lemma inv_do_action:
  assumes "one_task_per_pending s" "do_action body a s = Inr s'"
  shows "one_task_per_pending s'"
proof (cases a)
  case (Do_SetOperation d operation n)
  with assms show ?thesis
    by (simp add: one_task_per_pending_def SetOperation_frame [of d operation n s s'])
next
  case (Do_ChangeDelayForTest operation d)
  with assms show ?thesis
    by (simp add: one_task_per_pending_def ChangeDelayForTest_frame [of operation d s s'])
next
  case (Do_Schedule r operation)
  with assms show ?thesis by (auto intro: inv_Schedule)
next
  case (Scheduler_runs i)
  with assms show ?thesis by (auto intro: inv_scheduler_run_task)
qed

lemma inv_do_actions:
  "one_task_per_pending s \<Longrightarrow> do_actions body acts s = Inr s' \<Longrightarrow> one_task_per_pending s'"
proof (induction acts arbitrary: s)
  case Nil
  then show ?case by simp
next
  case (Cons a acts)
  from Cons.prems(2) obtain s1 where s1: "do_action body a s = Inr s1"
    and rest: "do_actions body acts s1 = Inr s'"
    by (auto simp: and_then_def split: sum.splits)
  from inv_do_action [OF Cons.prems(1) s1] rest show ?case
    by (rule Cons.IH)
qed


lemma and_then_Closure_Run_Nil: "and_then x (Closure_Run []) = x"
  by (cases x) (simp_all add: and_then_def)

text \<open>
  C7. In every state that an \<open>OperationScheduler\<close> reaches from its construction, by calls
  of its functions and by tasks the external scheduler runs, in any order, each operation
  has at most one future execution outstanding: exactly one while its pending flag
  \<open>has_been_scheduled\<close> is set, none otherwise. In any state \<open>t\<close>:
  \<^item> \<open>Schedule\<close> on an operation whose flag is set changes nothing;
  \<^item> \<open>Schedule\<close> on a registered operation whose flag is not set sets the flag and hands
    one task to the scheduler, with the smeared delay (it goes no further when the
    smearer cannot convert its product to \<open>int64\<close>);
  \<^item> when the task runs, the closure's body starts in a state where the flag of the
    operation is cleared (other flags and the scheduler's queue as they were), so an
    operation whose body schedules itself, with a delay the smearer can smear, is pending
    again afterwards.
\<close>

theorem operation_scheduled_at_most_once:
  "(do_actions body acts OperationScheduler_init = Inr s \<longrightarrow>
      outstanding operation s = (if pending operation s then 1 else 0)
      \<and> outstanding operation s \<le> 1)
   \<and> (pending operation t \<longrightarrow> Schedule r operation t = Inr t)
   \<and> (operations t operation = Some op_info \<and> \<not> has_been_scheduled op_info \<longrightarrow>
        Schedule r operation t =
          and_then (GetSmearedDelay (smearer t) r (delay op_info))
            (\<lambda>smeared.
               Inr (t\<lparr> operations :=
                         (operations t)(operation \<mapsto> op_info\<lparr> has_been_scheduled := True \<rparr>),
                       scheduler_tasks := scheduler_tasks t @
                         [(smeared, RunAndClearScheduled_task operation)] \<rparr>)))
   \<and> (\<exists>t0. RunAndClearScheduled body operation t = Closure_Run (body operation) t0
          \<and> \<not> pending operation t0
          \<and> (\<forall>x. x \<noteq> operation \<longrightarrow> pending x t0 = pending x t)
          \<and> scheduler_tasks t0 = scheduler_tasks t)
   \<and> (operations t operation = Some op_info \<and> body operation = [(operation, r)]
        \<and> GetSmearedDelay (smearer t) r (delay op_info) = Inr smeared \<longrightarrow>
        (\<exists>t'. RunAndClearScheduled body operation t = Inr t'
           \<and> pending operation t'
           \<and> outstanding operation t' = Suc (outstanding operation t)))"
proof (intro conjI impI)
  assume run: "do_actions body acts OperationScheduler_init = Inr s"
  have "one_task_per_pending s"
    using inv_init run by (rule inv_do_actions)
  then show "outstanding operation s = (if pending operation s then 1 else 0)"
    by (simp add: one_task_per_pending_def)
  then show "outstanding operation s \<le> 1"
    by simp
next
  assume "pending operation t"
  then show "Schedule r operation t = Inr t"
    by (rule Schedule_pending)
next
  assume "operations t operation = Some op_info \<and> \<not> has_been_scheduled op_info"
  then show "Schedule r operation t =
          and_then (GetSmearedDelay (smearer t) r (delay op_info))
            (\<lambda>smeared.
               Inr (t\<lparr> operations :=
                         (operations t)(operation \<mapsto> op_info\<lparr> has_been_scheduled := True \<rparr>),
                       scheduler_tasks := scheduler_tasks t @
                         [(smeared, RunAndClearScheduled_task operation)] \<rparr>))"
    by (simp add: Schedule_not_pending)
next
  let ?t0 = "t\<lparr> operations := (operations t)(operation :=
                  map_option (\<lambda>info. info\<lparr> has_been_scheduled := False \<rparr>)
                    (operations t operation)) \<rparr>"
  have "RunAndClearScheduled body operation t = Closure_Run (body operation) ?t0"
    by (simp add: RunAndClearScheduled_def)
  moreover have "\<not> pending operation ?t0"
    by (simp add: pending_def split: option.splits)
  moreover have "\<forall>x. x \<noteq> operation \<longrightarrow> pending x ?t0 = pending x t"
    by (simp add: pending_def)
  moreover have "scheduler_tasks ?t0 = scheduler_tasks t"
    by simp
  ultimately show "\<exists>t0. RunAndClearScheduled body operation t = Closure_Run (body operation) t0
          \<and> \<not> pending operation t0
          \<and> (\<forall>x. x \<noteq> operation \<longrightarrow> pending x t0 = pending x t)
          \<and> scheduler_tasks t0 = scheduler_tasks t"
    by blast
next
  assume a: "operations t operation = Some op_info \<and> body operation = [(operation, r)]
        \<and> GetSmearedDelay (smearer t) r (delay op_info) = Inr smeared"
  let ?t0 = "t\<lparr> operations := (operations t)(operation :=
                  map_option (\<lambda>info. info\<lparr> has_been_scheduled := False \<rparr>)
                    (operations t operation)) \<rparr>"
  have run: "RunAndClearScheduled body operation t = Schedule r operation ?t0"
    using a by (simp add: RunAndClearScheduled_def and_then_Closure_Run_Nil)
  have np: "\<not> pending operation ?t0"
    by (simp add: pending_def split: option.splits)
  obtain t' where t': "Schedule r operation ?t0 = Inr t'"
    using a by (auto simp: Schedule_def Let_def and_then_def split: option.splits)
  have "pending operation t'"
    using Schedule_frame(2) [OF t', of operation] by simp
  moreover have "outstanding operation t' = Suc (outstanding operation ?t0)"
    using Schedule_frame(1) [OF t', of operation] np by simp
  moreover have "outstanding operation ?t0 = outstanding operation t"
    by (simp add: outstanding_def)
  ultimately show "\<exists>t'. RunAndClearScheduled body operation t = Inr t'
           \<and> pending operation t'
           \<and> outstanding operation t' = Suc (outstanding operation t)"
    using run t' by simp
qed

text \<open>A run in which the operation 1 is registered, scheduled twice, run by the scheduler
  (its body schedules it again) and scheduled once more: one execution is outstanding at
  the end.\<close>

theorem operation_scheduled_at_most_once_witness:
  "do_actions (\<lambda>_. [(1, 1 / 2)])
      [Do_SetOperation 1000000 1 ''heartbeat'', Do_Schedule (1 / 2) 1, Do_Schedule 1 1,
       Scheduler_runs 0, Do_Schedule 0 1]
      OperationScheduler_init
    = Inr \<lparr> operations = [1 \<mapsto> \<lparr> delay = 1000000, name = ''heartbeat'', has_been_scheduled = True \<rparr>],
            smearer = Smearer_default,
            scheduler_tasks = [(1000000, RunAndClearScheduled_task 1)] \<rparr>
   \<and> outstanding 1 \<lparr> operations = [1 \<mapsto> \<lparr> delay = 1000000, name = ''heartbeat'', has_been_scheduled = True \<rparr>],
            smearer = Smearer_default,
            scheduler_tasks = [(1000000, RunAndClearScheduled_task 1)] \<rparr> = 1
   \<and> pending 1 \<lparr> operations = [1 \<mapsto> \<lparr> delay = 1000000, name = ''heartbeat'', has_been_scheduled = True \<rparr>],
            smearer = Smearer_default,
            scheduler_tasks = [(1000000, RunAndClearScheduled_task 1)] \<rparr>
   \<and> Schedule 0 1 \<lparr> operations = [1 \<mapsto> \<lparr> delay = 1000000, name = ''heartbeat'', has_been_scheduled = True \<rparr>],
            smearer = Smearer_default,
            scheduler_tasks = [(1000000, RunAndClearScheduled_task 1)] \<rparr>
       = Inr \<lparr> operations = [1 \<mapsto> \<lparr> delay = 1000000, name = ''heartbeat'', has_been_scheduled = True \<rparr>],
            smearer = Smearer_default,
            scheduler_tasks = [(1000000, RunAndClearScheduled_task 1)] \<rparr>"
  using operation_scheduled_at_most_once
    [of "\<lambda>_. [(1, 1 / 2)]"
        "[Do_SetOperation 1000000 1 ''heartbeat'', Do_Schedule (1 / 2) 1, Do_Schedule 1 1,
          Scheduler_runs 0, Do_Schedule 0 1]"
        "\<lparr> operations = [1 \<mapsto> \<lparr> delay = 1000000, name = ''heartbeat'', has_been_scheduled = True \<rparr>],
            smearer = Smearer_default,
            scheduler_tasks = [(1000000, RunAndClearScheduled_task 1)] \<rparr>"
        1
        "\<lparr> operations = [1 \<mapsto> \<lparr> delay = 1000000, name = ''heartbeat'', has_been_scheduled = True \<rparr>],
            smearer = Smearer_default,
            scheduler_tasks = [(1000000, RunAndClearScheduled_task 1)] \<rparr>"
        0]
  by (simp add: and_then_def SetOperation_def Schedule_def scheduler_run_task_def
      RunAndClearScheduled_def take_task_def OperationScheduler_init_def
      OperationScheduleInfo_init_def NULL_def FromMilliseconds_def InMilliseconds_def
      kMicrosecondsPerMillisecond_def GetSmearedDelay_example outstanding_def pending_def)

section \<open>Properties of the Throttle\<close>

subsection \<open>Sorted lists of times\<close>

lemma sorted_filter_ge:
  fixes xs :: "int list"
  assumes "sorted xs"
  shows "\<exists>j\<le>length xs. filter (\<lambda>t. c \<le> t) xs = drop j xs \<and> (\<forall>i<j. xs ! i < c)"
  using assms
proof (induction xs)
  case Nil
  then show ?case by simp
next
  case (Cons x xs)
  show ?case
  proof (cases "c \<le> x")
    case True
    then have "\<forall>t\<in>set xs. c \<le> t"
      using Cons.prems by auto
    then have "filter (\<lambda>t. c \<le> t) (x # xs) = x # xs"
      using True by (simp add: filter_id_conv)
    then show ?thesis
      by (intro exI [of _ 0]) simp
  next
    case False
    from Cons obtain j where j: "j \<le> length xs" "filter (\<lambda>t. c \<le> t) xs = drop j xs"
      "\<forall>i<j. xs ! i < c"
      by auto
    have "\<forall>i<Suc j. (x # xs) ! i < c"
      using j(3) False by (auto simp: nth_Cons split: nat.splits)
    then show ?thesis
      using j(1,2) False by (intro exI [of _ "Suc j"]) simp
  qed
qed

lemma sorted_window_count:
  fixes xs :: "int list"
  assumes "sorted xs"
    and gap: "\<forall>i. i + c < length xs \<longrightarrow> w \<le> xs ! (i + c) - xs ! i"
  shows "length (filter (\<lambda>x. t \<le> x \<and> x < t + w) xs) \<le> c"
proof -
  obtain j where j: "j \<le> length xs" "filter (\<lambda>x. t \<le> x) xs = drop j xs"
    using sorted_filter_ge [OF assms(1), of t] by blast
  have split: "filter (\<lambda>x. t \<le> x \<and> x < t + w) xs = filter (\<lambda>x. x < t + w) (drop j xs)"
    using j(2) by (metis filter_filter conj_commute)
  show ?thesis
  proof (rule ccontr)
    assume "\<not> length (filter (\<lambda>x. t \<le> x \<and> x < t + w) xs) \<le> c"
    then have long: "c < length (filter (\<lambda>x. x < t + w) (drop j xs))"
      using split by simp
    have "length (filter (\<lambda>x. x < t + w) (drop j xs)) \<le> length (drop j xs)"
      by (rule length_filter_le)
    with long have len: "j + c < length xs"
      by simp
    have first: "t \<le> xs ! j"
    proof -
      have "xs ! j \<in> set (drop j xs)"
        using len by (metis Cons_nth_drop_Suc add_lessD1 list.set_intros(1))
      then have "xs ! j \<in> set (filter (\<lambda>x. t \<le> x) xs)"
        using j(2) by simp
      then show ?thesis by simp
    qed
    text \<open>If the \<open>c\<close>-th element after \<open>j\<close> were outside the window, so would all later
      ones be, and fewer than \<open>c + 1\<close> would be inside.\<close>
    have inside: "xs ! (j + c) < t + w"
    proof (rule ccontr)
      assume out: "\<not> xs ! (j + c) < t + w"
      have "\<forall>x\<in>set (drop c (drop j xs)). \<not> x < t + w"
      proof
        fix x assume "x \<in> set (drop c (drop j xs))"
        then obtain m where m: "m < length (drop c (drop j xs))" "x = drop c (drop j xs) ! m"
          by (metis in_set_conv_nth)
        then have "x = xs ! (j + c + m)"
          using len by (simp add: ac_simps)
        moreover have "xs ! (j + c) \<le> xs ! (j + c + m)"
          using assms(1) m(1) by (intro sorted_nth_mono) auto
        ultimately show "\<not> x < t + w"
          using out by simp
      qed
      then have "filter (\<lambda>x. x < t + w) (drop c (drop j xs)) = []"
        by (simp add: filter_empty_conv)
      moreover have "drop j xs = take c (drop j xs) @ drop c (drop j xs)"
        by (simp only: append_take_drop_id)
      ultimately have "filter (\<lambda>x. x < t + w) (drop j xs)
                         = filter (\<lambda>x. x < t + w) (take c (drop j xs))"
        by (metis append_Nil2 filter_append)
      then have "length (filter (\<lambda>x. x < t + w) (drop j xs)) \<le> c"
        by (metis length_filter_le length_take min.cobounded2 order_trans)
      with long show False by simp
    qed
    from gap len have "w \<le> xs ! (j + c) - xs ! j"
      by blast
    with first inside show False
      by simp
  qed
qed

subsection \<open>The limits\<close>

lemma foldr_max_ge:
  fixes b :: "'a::linorder"
  shows "b \<le> foldr max xs b" and "x \<in> set xs \<Longrightarrow> x \<le> foldr max xs b"
  by (induction xs) (auto simp: max_def)

lemma count_le_max:
  "l \<in> set limits \<Longrightarrow> count l \<le> foldr max (map count limits) 0"
  by (rule foldr_max_ge(2)) simp

lemma window_le_largest:
  assumes "l \<in> set limits"
  shows "\<exists>W. largest_window limits = Some W \<and> window_size l \<le> W"
proof (cases limits)
  case Nil
  with assms show ?thesis by simp
next
  case (Cons l0 ls)
  then have "l = l0 \<or> l \<in> set ls"
    using assms by auto
  then have "window_size l \<le> foldr max (map window_size ls) (window_size l0)"
    using foldr_max_ge(1) [of "window_size l0" "map window_size ls"]
      foldr_max_ge(2) [of "window_size l" "map window_size ls" "window_size l0"]
    by auto
  then show ?thesis
    using Cons by (simp add: largest_window_def)
qed

lemma drop_old_sorted:
  assumes "sorted recent"
  shows "\<exists>j\<le>length recent. drop_old limits now recent = drop j recent
           \<and> (\<forall>i<j. \<exists>W. largest_window limits = Some W \<and> W < now - recent ! i)"
proof (cases "largest_window limits")
  case None
  then show ?thesis
    by (intro exI [of _ 0]) (simp add: drop_old_def)
next
  case (Some W)
  obtain j where j: "j \<le> length recent" "filter (\<lambda>t. now - W \<le> t) recent = drop j recent"
    "\<forall>i<j. recent ! i < now - W"
    using sorted_filter_ge [OF assms, of "now - W"] by blast
  have "(\<lambda>t. \<not> now - t > W) = (\<lambda>t. now - W \<le> t)"
    by auto
  then have "drop_old limits now recent = drop j recent"
    using Some j(2) by (simp add: drop_old_def)
  moreover have "\<forall>i<j. \<exists>W'. largest_window limits = Some W' \<and> W' < now - recent ! i"
    using Some j(3) by auto
  ultimately show ?thesis
    using j(1) by blast
qed

lemma earliest_legal_cases:
  assumes "0 < count l"
  shows "earliest_legal now recent l =
           Inr (if count l \<le> length recent
                   \<and> now - recent ! (length recent - count l) < window_size l
                then Some (recent ! (length recent - count l) + window_size l) else None)"
  using assms by (auto simp: earliest_legal_def Let_def)

lemma latest_earliest_legal_total:
  assumes "\<forall>l\<in>set limits. 0 < count l"
  shows "\<exists>v. latest_earliest_legal now recent limits = Inr v"
  using assms
proof (induction limits)
  case Nil
  then show ?case by simp
next
  case (Cons l limits)
  then obtain v where "latest_earliest_legal now recent limits = Inr v"
    by auto
  then show ?case
    using Cons.prems by (simp add: earliest_legal_cases and_then_def)
qed

lemma latest_earliest_legal_None:
  assumes "\<forall>l\<in>set limits. 0 < count l"
    and "latest_earliest_legal now recent limits = Inr None"
    and "l \<in> set limits"
  shows "\<not> (count l \<le> length recent
           \<and> now - recent ! (length recent - count l) < window_size l)"
  using assms
proof (induction limits)
  case Nil
  then show ?case by simp
next
  case (Cons l0 limits)
  obtain v where v: "latest_earliest_legal now recent limits = Inr v"
    using latest_earliest_legal_total [of limits now recent] Cons.prems(1) by auto
  from Cons.prems(1,2) v
  have none: "\<not> (count l0 \<le> length recent
           \<and> now - recent ! (length recent - count l0) < window_size l0)" "v = None"
    by (auto simp: earliest_legal_cases and_then_def split: if_splits option.splits)
  show ?case
  proof (cases "l = l0")
    case True
    with none(1) show ?thesis by simp
  next
    case False
    with Cons.prems(3) have "l \<in> set limits" by simp
    with Cons.IH Cons.prems(1) v none(2) show ?thesis by simp
  qed
qed

lemma latest_earliest_legal_Some:
  assumes "\<forall>l\<in>set limits. 0 < count l"
    and "latest_earliest_legal now recent limits = Inr (Some t)"
  shows "\<exists>l\<in>set limits. count l \<le> length recent
           \<and> t = recent ! (length recent - count l) + window_size l"
  using assms
proof (induction limits arbitrary: t)
  case Nil
  then show ?case by simp
next
  case (Cons l0 limits)
  obtain v where v: "latest_earliest_legal now recent limits = Inr v"
    using latest_earliest_legal_total [of limits now recent] Cons.prems(1) by auto
  let ?t0 = "recent ! (length recent - count l0) + window_size l0"
  from Cons.prems v
  have "(count l0 \<le> length recent \<and> t = ?t0) \<or> v = Some t"
    by (auto simp: earliest_legal_cases and_then_def max_def split: if_splits option.splits)
  then show ?case
  proof
    assume "count l0 \<le> length recent \<and> t = ?t0"
    then show ?thesis by auto
  next
    assume "v = Some t"
    with Cons.IH [of t] Cons.prems(1) v show ?thesis by auto
  qed
qed

lemma latest_earliest_legal_violated:
  assumes "\<forall>l\<in>set limits. 0 < count l"
    and "l \<in> set limits" and "count l \<le> length recent"
    and "now - recent ! (length recent - count l) < window_size l"
  shows "\<exists>t. latest_earliest_legal now recent limits = Inr (Some t)"
proof -
  obtain v where v: "latest_earliest_legal now recent limits = Inr v"
    using latest_earliest_legal_total [OF assms(1)] by blast
  have "v \<noteq> None"
  proof
    assume "v = None"
    with v have "latest_earliest_legal now recent limits = Inr None"
      by simp
    from latest_earliest_legal_None [OF assms(1) this assms(2)] assms(3,4)
    show False by simp
  qed
  with v show ?thesis by auto
qed

subsection \<open>The log of runs and the buffer\<close>

lemma log_invI:
  assumes "sorted runs" "\<forall>x\<in>set runs. x \<le> now" "k \<le> length runs" "recent = drop k runs"
    and "\<forall>i<k. foldr max (map count limits) 0 < length runs - i
           \<or> (\<exists>W. largest_window limits = Some W \<and> W < now - runs ! i)"
    and "spaced limits runs"
  shows "log_inv limits now runs recent"
  unfolding log_inv_def
  using assms(1,2,6) exI [of "\<lambda>k. k \<le> length runs \<and> recent = drop k runs
           \<and> (\<forall>i<k. foldr max (map count limits) 0 < length runs - i
           \<or> (\<exists>W. largest_window limits = Some W \<and> W < now - runs ! i))" k] assms(3,4,5)
  by simp

lemma log_invE:
  assumes "log_inv limits now runs recent"
  obtains k where "sorted runs" "\<forall>x\<in>set runs. x \<le> now" "k \<le> length runs"
    "recent = drop k runs"
    "\<forall>i<k. foldr max (map count limits) 0 < length runs - i
           \<or> (\<exists>W. largest_window limits = Some W \<and> W < now - runs ! i)"
    "spaced limits runs"
  using assms unfolding log_inv_def by (elim conjE exE) simp

lemma log_inv_time:
  assumes "log_inv limits now runs recent" "now \<le> now'"
  shows "log_inv limits now' runs recent"
proof -
  from assms(1) obtain k where k: "sorted runs" "\<forall>x\<in>set runs. x \<le> now" "k \<le> length runs"
    "recent = drop k runs"
    "\<forall>i<k. foldr max (map count limits) 0 < length runs - i
           \<or> (\<exists>W. largest_window limits = Some W \<and> W < now - runs ! i)"
    "spaced limits runs"
    by (rule log_invE)
  have old: "\<forall>i<k. foldr max (map count limits) 0 < length runs - i
           \<or> (\<exists>W. largest_window limits = Some W \<and> W < now' - runs ! i)"
  proof (intro allI impI)
    fix i assume "i < k"
    with k(5) have "foldr max (map count limits) 0 < length runs - i
           \<or> (\<exists>W. largest_window limits = Some W \<and> W < now - runs ! i)"
      by simp
    then show "foldr max (map count limits) 0 < length runs - i
           \<or> (\<exists>W. largest_window limits = Some W \<and> W < now' - runs ! i)"
    proof
      assume "foldr max (map count limits) 0 < length runs - i"
      then show ?thesis by simp
    next
      assume "\<exists>W. largest_window limits = Some W \<and> W < now - runs ! i"
      then obtain W where "largest_window limits = Some W" "W < now - runs ! i"
        by blast
      then have "largest_window limits = Some W \<and> W < now' - runs ! i"
        using assms(2) by simp
      then show ?thesis by blast
    qed
  qed
  have le: "\<forall>x\<in>set runs. x \<le> now'"
    using k(2) assms(2) by auto
  show ?thesis
    by (rule log_invI [OF k(1) le k(3) k(4) old k(6)])
qed

lemma log_inv_drop_old:
  assumes "log_inv limits now runs recent"
  shows "\<exists>j\<le>length recent. drop_old limits now recent = drop j recent
           \<and> (\<forall>i<j. \<exists>W. largest_window limits = Some W \<and> W < now - recent ! i)
           \<and> log_inv limits now runs (drop j recent)"
proof -
  from assms obtain k where k: "sorted runs" "\<forall>x\<in>set runs. x \<le> now" "k \<le> length runs"
    "recent = drop k runs"
    "\<forall>i<k. foldr max (map count limits) 0 < length runs - i
           \<or> (\<exists>W. largest_window limits = Some W \<and> W < now - runs ! i)"
    "spaced limits runs"
    by (rule log_invE)
  have "sorted recent"
    using k(1,4) by (simp add: sorted_wrt_drop)
  from drop_old_sorted [OF this, of limits now]
  obtain j where j: "j \<le> length recent" "drop_old limits now recent = drop j recent"
    "\<forall>i<j. \<exists>W. largest_window limits = Some W \<and> W < now - recent ! i"
    by blast
  have 1: "k + j \<le> length runs"
    using j(1) k(3,4) by simp
  have 2: "drop j recent = drop (k + j) runs"
    using k(4) by (simp add: add.commute)
  have 3: "\<forall>i<k + j. foldr max (map count limits) 0 < length runs - i
           \<or> (\<exists>W. largest_window limits = Some W \<and> W < now - runs ! i)"
  proof (intro allI impI)
    fix i assume i: "i < k + j"
    show "foldr max (map count limits) 0 < length runs - i
           \<or> (\<exists>W. largest_window limits = Some W \<and> W < now - runs ! i)"
    proof (cases "i < k")
      case True
      with k(5) show ?thesis by simp
    next
      case False
      then have "i - k < j" using i by simp
      with j(3) obtain W where W: "largest_window limits = Some W" "W < now - recent ! (i - k)"
        by blast
      have "recent ! (i - k) = runs ! i"
        using False k(3,4) i 1 by simp
      with W have "largest_window limits = Some W \<and> W < now - runs ! i"
        by simp
      then show ?thesis by blast
    qed
  qed
  have "log_inv limits now runs (drop j recent)"
    by (rule log_invI [OF k(1) k(2) 1 2 3 k(6)])
  with j show ?thesis
    by blast
qed

lemma log_inv_run:
  assumes inv: "log_inv limits now runs r"
    and pos: "\<forall>l\<in>set limits. 0 < count l"
    and none: "latest_earliest_legal now r limits = Inr None"
  shows "log_inv limits now (runs @ [now])
           (drop (length (r @ [now]) - foldr max (map count limits) 0) (r @ [now]))"
proof -
  let ?K = "foldr max (map count limits) 0"
  let ?n = "length runs"
  from inv obtain k where k: "sorted runs" "\<forall>x\<in>set runs. x \<le> now" "k \<le> length runs"
    "r = drop k runs"
    "\<forall>i<k. ?K < length runs - i
           \<or> (\<exists>W. largest_window limits = Some W \<and> W < now - runs ! i)"
    "spaced limits runs"
    by (rule log_invE)
  let ?m = "length (r @ [now]) - ?K"
  have lr: "length r = ?n - k"
    using k(4) by simp
  have 1: "sorted (runs @ [now])"
    using k(1,2) by (simp add: sorted_append)
  have 2: "\<forall>x\<in>set (runs @ [now]). x \<le> now"
    using k(2) by simp
  have 3: "k + ?m \<le> length (runs @ [now])"
    using k(3) lr by simp
  have 4: "drop ?m (r @ [now]) = drop (k + ?m) (runs @ [now])"
  proof -
    have "r @ [now] = drop k (runs @ [now])"
      using k(3,4) by simp
    then have "drop ?m (r @ [now]) = drop ?m (drop k (runs @ [now]))"
      by (simp only:)
    also have "\<dots> = drop (k + ?m) (runs @ [now])"
      by (simp only: drop_drop add.commute)
    finally show ?thesis .
  qed
  have 5: "\<forall>i<k + ?m. ?K < length (runs @ [now]) - i
           \<or> (\<exists>W. largest_window limits = Some W \<and> W < now - (runs @ [now]) ! i)"
  proof (intro allI impI)
    fix i assume i: "i < k + ?m"
    show "?K < length (runs @ [now]) - i
           \<or> (\<exists>W. largest_window limits = Some W \<and> W < now - (runs @ [now]) ! i)"
    proof (cases "i < k")
      case True
      then have "(runs @ [now]) ! i = runs ! i"
        using k(3) by (simp add: nth_append)
      moreover from True k(5) have "?K < length runs - i
           \<or> (\<exists>W. largest_window limits = Some W \<and> W < now - runs ! i)"
        by simp
      ultimately show ?thesis
        by auto
    next
      case False
      then have "?K < length (runs @ [now]) - i"
        using i lr k(3) by simp
      then show ?thesis by simp
    qed
  qed
  have 6: "spaced limits (runs @ [now])"
    unfolding spaced_def
  proof (intro ballI allI impI)
    fix l i assume l: "l \<in> set limits" and i: "i + count l < length (runs @ [now])"
    have c: "0 < count l" using pos l by simp
    show "window_size l \<le> (runs @ [now]) ! (i + count l) - (runs @ [now]) ! i"
    proof (cases "i + count l < ?n")
      case True
      then have "(runs @ [now]) ! (i + count l) = runs ! (i + count l)"
        "(runs @ [now]) ! i = runs ! i"
        by (simp_all add: nth_append)
      moreover have "window_size l \<le> runs ! (i + count l) - runs ! i"
        using k(6) l True unfolding spaced_def by blast
      ultimately show ?thesis by simp
    next
      case False
      then have eq: "i + count l = ?n"
        using i by simp
      then have last: "(runs @ [now]) ! (i + count l) = now"
        by (simp add: nth_append)
      have i_lt: "i < ?n"
        using eq c by simp
      then have first: "(runs @ [now]) ! i = runs ! i"
        by (simp add: nth_append)
      have nv: "\<not> (count l \<le> length r
                  \<and> now - r ! (length r - count l) < window_size l)"
        by (rule latest_earliest_legal_None [OF pos none l])
      have "window_size l \<le> now - runs ! i"
      proof (cases "count l \<le> length r")
        case True
        have "i = ?n - count l"
          using eq by simp
        with True have "r ! (length r - count l) = runs ! i"
          using k(3,4) lr by simp
        with nv True show ?thesis by simp
      next
        case False
        then have "i < k"
          using lr eq by simp
        with k(5) have "?K < length runs - i
           \<or> (\<exists>W. largest_window limits = Some W \<and> W < now - runs ! i)"
          by simp
        then show ?thesis
        proof
          assume "?K < length runs - i"
          then have "?K < count l" using eq by simp
          with count_le_max [OF l] show ?thesis by simp
        next
          assume "\<exists>W. largest_window limits = Some W \<and> W < now - runs ! i"
          then obtain W where W: "largest_window limits = Some W" "W < now - runs ! i"
            by blast
          with window_le_largest [OF l] show ?thesis by auto
        qed
      qed
      with last first show ?thesis by simp
    qed
  qed
  show ?thesis
    by (rule log_invI [OF 1 2 3 4 5 6])
qed

lemma log_inv_windows:
  assumes "log_inv limits now runs recent" "l \<in> set limits"
  shows "runs_in_window t (window_size l) runs \<le> count l"
proof -
  from assms(1) obtain k where k: "sorted runs" "spaced limits runs"
    by (rule log_invE)
  have "\<forall>i. i + count l < length runs \<longrightarrow> window_size l \<le> runs ! (i + count l) - runs ! i"
    using k(2) assms(2) unfolding spaced_def by blast
  from sorted_window_count [OF k(1) this] show ?thesis
    by (simp add: runs_in_window_def)
qed

lemma log_inv_start: "log_inv limits now [] []"
  by (rule log_invI [where k = 0]) (simp_all add: spaced_def)

subsection \<open>The armed retry\<close>

lemma timer_inv_drop:
  assumes "timer_inv limits now recent timer queue"
    and "j \<le> length recent"
    and "\<forall>i<j. \<exists>W. largest_window limits = Some W \<and> W < now - recent ! i"
  shows "timer_inv limits now (drop j recent) timer queue"
proof (cases timer)
  case False
  with assms(1) show ?thesis by (simp add: timer_inv_def)
next
  case True
  with assms(1) obtain e where e: "queue = [e]"
    "now < time e \<longrightarrow>
       (\<exists>l\<in>set limits. 0 < count l \<and> count l \<le> length recent
          \<and> time e \<le> recent ! (length recent - count l) + window_size l)"
    by (auto simp: timer_inv_def)
  have "now < time e \<longrightarrow>
       (\<exists>l\<in>set limits. 0 < count l \<and> count l \<le> length (drop j recent)
          \<and> time e \<le> drop j recent ! (length (drop j recent) - count l) + window_size l)"
  proof
    assume ahead: "now < time e"
    with e(2) obtain l where l: "l \<in> set limits" "0 < count l" "count l \<le> length recent"
      "time e \<le> recent ! (length recent - count l) + window_size l"
      by blast
    have j: "j \<le> length recent - count l"
    proof (rule ccontr)
      assume "\<not> j \<le> length recent - count l"
      then have "length recent - count l < j" by simp
      with assms(3) obtain W where W: "largest_window limits = Some W"
        "W < now - recent ! (length recent - count l)"
        by blast
      with window_le_largest [OF l(1)] have "window_size l < now - recent ! (length recent - count l)"
        by auto
      with l(4) ahead show False by simp
    qed
    then have "count l \<le> length (drop j recent)"
      using l(3) by simp
    moreover have "drop j recent ! (length (drop j recent) - count l)
                     = recent ! (length recent - count l)"
      using j l(3) assms(2) by simp
    ultimately show "\<exists>l\<in>set limits. 0 < count l \<and> count l \<le> length (drop j recent)
          \<and> time e \<le> drop j recent ! (length (drop j recent) - count l) + window_size l"
      using l(1,2,4) by auto
  qed
  with e(1) True show ?thesis
    by (simp add: timer_inv_def)
qed

lemma timer_inv_violated:
  assumes "timer_inv limits now recent True queue"
    and "\<forall>l\<in>set limits. 0 < count l"
    and "queue = [e]" "now < time e"
  shows "\<exists>t. latest_earliest_legal now recent limits = Inr (Some t)"
proof -
  from assms(1,3,4) obtain l where l: "l \<in> set limits" "count l \<le> length recent"
    "time e \<le> recent ! (length recent - count l) + window_size l"
    by (auto simp: timer_inv_def)
  have "now - recent ! (length recent - count l) < window_size l"
    using l(3) assms(4) by simp
  from latest_earliest_legal_violated [OF assms(2) l(1,2) this] show ?thesis .
qed

subsection \<open>The throttle keeps its invariant\<close>

lemma ListenerClosure_Run_frame:
  "scheduler (ListenerClosure_Run lsn w) = scheduler w"
  "throttle (ListenerClosure_Run lsn w) = throttle w"
  "listener_runs (ListenerClosure_Run lsn w) = listener_runs w"
  "call_count (ListenerClosure_Run lsn w) = call_count w + 1"
  by (cases lsn; simp add: IncrementCounter_def IncrementAndCheckRateLimits_def Let_def)+

text \<open>What \<open>Fire\<close> does, by the outcome of the check of the limits on the pruned
  buffer.\<close>

lemma Fire_cases:
  assumes "latest_earliest_legal (current_time (scheduler w))
             (drop_old (rate_limits (throttle w)) (current_time (scheduler w))
                (recent_event_times (throttle w)))
             (rate_limits (throttle w)) = Inr v"
    and "started (scheduler w)" "\<not> stopped (scheduler w)"
  shows "Fire w =
    (let now = current_time (scheduler w);
         recent = drop_old (rate_limits (throttle w)) now (recent_event_times (throttle w))
     in case v of
          None \<Rightarrow>
            Inr (ListenerClosure_Run (listener (throttle w))
                   (w\<lparr> throttle := (throttle w)\<lparr> recent_event_times :=
                           drop (length (recent @ [now]) - max_recent_events (throttle w))
                             (recent @ [now]) \<rparr>,
                       listener_runs := listener_runs w @ [now] \<rparr>))
        | Some t \<Rightarrow>
            if timer_scheduled (throttle w)
            then Inr (w\<lparr> throttle := (throttle w)\<lparr> recent_event_times := recent \<rparr> \<rparr>)
            else Inr (w\<lparr> throttle := (throttle w)\<lparr> recent_event_times := recent,
                                                  timer_scheduled := True \<rparr>,
                         scheduler := (scheduler w)
                           \<lparr> work_queue := work_queue (scheduler w) @
                                [\<lparr> time = t, immediate = False,
                                   entry_id = current_id (scheduler w),
                                   task = RetryFire_closure \<rparr>],
                             current_id := current_id (scheduler w) + 1 \<rparr> \<rparr>))"
  using assms
  by (cases v)
    (simp_all add: Fire_def Let_def and_then_def GetCurrentTime_def
      DeterministicScheduler_Schedule_def)

lemma throttle_invE:
  assumes "throttle_inv limits w"
  shows "rate_limits (throttle w) = limits"
    and "max_recent_events (throttle w) = foldr max (map count limits) 0"
    and "started (scheduler w)" and "\<not> stopped (scheduler w)"
    and "log_inv limits (current_time (scheduler w)) (listener_runs w)
            (recent_event_times (throttle w))"
    and "timer_inv limits (current_time (scheduler w)) (recent_event_times (throttle w))
            (timer_scheduled (throttle w)) (work_queue (scheduler w))"
    and "call_count w = int (length (listener_runs w))"
  using assms by (simp_all add: throttle_inv_def)

lemma Fire_inv:
  assumes inv: "throttle_inv limits w" and pos: "\<forall>l\<in>set limits. 0 < count l"
  shows "\<exists>w'. Fire w = Inr w' \<and> throttle_inv limits w'"
proof -
  note i = throttle_invE [OF inv]
  let ?now = "current_time (scheduler w)"
  let ?recent = "drop_old limits ?now (recent_event_times (throttle w))"
  obtain j where j: "j \<le> length (recent_event_times (throttle w))"
    "?recent = drop j (recent_event_times (throttle w))"
    "\<forall>i<j. \<exists>W. largest_window limits = Some W
              \<and> W < ?now - recent_event_times (throttle w) ! i"
    "log_inv limits ?now (listener_runs w) (drop j (recent_event_times (throttle w)))"
    using log_inv_drop_old [OF i(5)] by blast
  have li: "log_inv limits ?now (listener_runs w) ?recent"
    using j(2,4) by simp
  have ti: "timer_inv limits ?now ?recent (timer_scheduled (throttle w))
              (work_queue (scheduler w))"
    using timer_inv_drop [OF i(6) j(1) j(3)] j(2) by simp
  obtain v where v: "latest_earliest_legal ?now ?recent limits = Inr v"
    using latest_earliest_legal_total [OF pos] by blast
  have v': "latest_earliest_legal ?now
             (drop_old (rate_limits (throttle w)) ?now (recent_event_times (throttle w)))
             (rate_limits (throttle w)) = Inr v"
    using v i(1) by simp
  note fire = Fire_cases [OF v' i(3) i(4), unfolded Let_def i(1) i(2)]
  show ?thesis
  proof (cases v)
    case None
    let ?w1 = "w\<lparr> throttle := (throttle w)\<lparr> recent_event_times :=
                     drop (length (?recent @ [?now]) - foldr max (map count limits) 0)
                       (?recent @ [?now]) \<rparr>,
                  listener_runs := listener_runs w @ [?now] \<rparr>"
    let ?w' = "ListenerClosure_Run (listener (throttle w)) ?w1"
    have f: "Fire w = Inr ?w'"
      using fire None by simp
    have li': "log_inv limits ?now (listener_runs w @ [?now])
                 (drop (length (?recent @ [?now]) - foldr max (map count limits) 0)
                    (?recent @ [?now]))"
      using log_inv_run [OF li pos] v None by simp
    have ti': "timer_inv limits ?now
                 (drop (length (?recent @ [?now]) - foldr max (map count limits) 0)
                    (?recent @ [?now]))
                 (timer_scheduled (throttle w)) (work_queue (scheduler w))"
    proof (cases "timer_scheduled (throttle w)")
      case False
      with ti show ?thesis by (simp add: timer_inv_def)
    next
      case True
      with ti obtain e where e: "work_queue (scheduler w) = [e]"
        by (auto simp: timer_inv_def)
      have "\<not> ?now < time e"
      proof
        assume "?now < time e"
        from timer_inv_violated [OF _ pos e this] ti True
        obtain t where "latest_earliest_legal ?now ?recent limits = Inr (Some t)"
          by auto
        with v None show False by simp
      qed
      with e True show ?thesis
        by (simp add: timer_inv_def)
    qed
    have "throttle_inv limits ?w'"
      unfolding throttle_inv_def
      using i(1,2,3,4,7) li' ti' by (simp add: ListenerClosure_Run_frame)
    with f show ?thesis by blast
  next
    case (Some t)
    show ?thesis
    proof (cases "timer_scheduled (throttle w)")
      case True
      let ?w' = "w\<lparr> throttle := (throttle w)\<lparr> recent_event_times := ?recent \<rparr> \<rparr>"
      have f: "Fire w = Inr ?w'"
        using fire Some True by simp
      have "throttle_inv limits ?w'"
        unfolding throttle_inv_def
        using i(1,2,3,4,7) li ti by simp
      with f show ?thesis by blast
    next
      case False
      let ?e = "\<lparr> time = t, immediate = False, entry_id = current_id (scheduler w),
                  task = RetryFire_closure \<rparr>"
      let ?w' = "w\<lparr> throttle := (throttle w)\<lparr> recent_event_times := ?recent,
                                                  timer_scheduled := True \<rparr>,
                     scheduler := (scheduler w)
                       \<lparr> work_queue := work_queue (scheduler w) @ [?e],
                         current_id := current_id (scheduler w) + 1 \<rparr> \<rparr>"
      have f: "Fire w = Inr ?w'"
        using fire Some False by simp
      have q: "work_queue (scheduler w) = []"
        using i(6) False by (simp add: timer_inv_def)
      obtain l where l: "l \<in> set limits" "count l \<le> length ?recent"
        "t = ?recent ! (length ?recent - count l) + window_size l"
        using latest_earliest_legal_Some [OF pos] v Some by blast
      have "timer_inv limits ?now ?recent True [?e]"
        unfolding timer_inv_def using l pos by auto
      then have "throttle_inv limits ?w'"
        unfolding throttle_inv_def
        using i(1,2,3,4,7) li q by simp
      with f show ?thesis by blast
    qed
  qed
qed

text \<open>While a retry is armed and its time lies ahead, \<open>Fire\<close> only prunes the buffer.\<close>

lemma Fire_deferred:
  assumes inv: "throttle_inv limits w" and pos: "\<forall>l\<in>set limits. 0 < count l"
    and armed: "timer_scheduled (throttle w)"
    and ahead: "\<forall>e\<in>set (work_queue (scheduler w)). current_time (scheduler w) < time e"
  shows "Fire w = Inr (w\<lparr> throttle := (throttle w)\<lparr> recent_event_times :=
                    drop_old limits (current_time (scheduler w))
                      (recent_event_times (throttle w)) \<rparr> \<rparr>)"
proof -
  note i = throttle_invE [OF inv]
  let ?now = "current_time (scheduler w)"
  let ?recent = "drop_old limits ?now (recent_event_times (throttle w))"
  obtain j where j: "j \<le> length (recent_event_times (throttle w))"
    "?recent = drop j (recent_event_times (throttle w))"
    "\<forall>i<j. \<exists>W. largest_window limits = Some W
              \<and> W < ?now - recent_event_times (throttle w) ! i"
    using log_inv_drop_old [OF i(5)] by blast
  have ti: "timer_inv limits ?now ?recent True (work_queue (scheduler w))"
    using timer_inv_drop [OF i(6) j(1) j(3)] j(2) armed by simp
  then obtain e where e: "work_queue (scheduler w) = [e]"
    by (auto simp: timer_inv_def)
  with ahead have "?now < time e" by simp
  from timer_inv_violated [OF ti pos e this]
  obtain t where v: "latest_earliest_legal ?now ?recent limits = Inr (Some t)"
    by blast
  have v': "latest_earliest_legal ?now
             (drop_old (rate_limits (throttle w)) ?now (recent_event_times (throttle w)))
             (rate_limits (throttle w)) = Inr (Some t)"
    using v i(1) by simp
  from Fire_cases [OF v' i(3) i(4), unfolded Let_def i(1) i(2)] armed
  show ?thesis by simp
qed

declare RunReadyTasks_loop.simps [simp del]

lemma RunNextTask_inv:
  assumes inv: "throttle_inv limits w" and pos: "\<forall>l\<in>set limits. 0 < count l"
  shows "\<exists>r w'. RunNextTask w = Inr (r, w') \<and> throttle_inv limits w'"
proof (cases "timer_scheduled (throttle w)")
  case False
  then have "work_queue (scheduler w) = []"
    using throttle_invE(6) [OF inv] by (simp add: timer_inv_def)
  then have "RunNextTask w = Inr (False, w)"
    by (simp add: RunNextTask_def)
  with inv show ?thesis by blast
next
  case True
  then obtain e where e: "work_queue (scheduler w) = [e]"
    using throttle_invE(6) [OF inv] by (auto simp: timer_inv_def)
  show ?thesis
  proof (cases "time e \<le> current_time (scheduler w)")
    case False
    then have "RunNextTask w = Inr (False, w)"
      using e by (simp add: RunNextTask_def GetCurrentTime_def)
    with inv show ?thesis by blast
  next
    case ready: True
    let ?w2 = "w\<lparr> scheduler := (scheduler w)\<lparr> work_queue := [] \<rparr>,
                  throttle := (throttle w)\<lparr> timer_scheduled := False \<rparr> \<rparr>"
    have t: "task e = RetryFire_closure"
      by (cases "task e") simp
    have run: "RunNextTask w = and_then (Fire ?w2) (\<lambda>w'. Inr (True, w'))"
      using e ready t by (simp add: RunNextTask_def GetCurrentTime_def RetryFire_def)
    have "throttle_inv limits ?w2"
      using inv unfolding throttle_inv_def by (simp add: timer_inv_def)
    from Fire_inv [OF this pos] obtain w' where "Fire ?w2 = Inr w'" "throttle_inv limits w'"
      by blast
    with run show ?thesis
      by (auto simp: and_then_def)
  qed
qed

lemma RunReadyTasks_loop_inv:
  assumes pos: "\<forall>l\<in>set limits. 0 < count l"
  shows "throttle_inv limits w \<Longrightarrow>
           \<exists>w'. RunReadyTasks_loop w = Inr w' \<and> throttle_inv limits w'"
proof (induction w rule: RunReadyTasks_loop.induct)
  case (1 w)
  from RunNextTask_inv [OF "1.prems" pos]
  obtain r w1 where n: "RunNextTask w = Inr (r, w1)" and i1: "throttle_inv limits w1"
    by blast
  show ?case
  proof (cases r)
    case False
    then have "RunReadyTasks_loop w = Inr w1"
      using n by (subst RunReadyTasks_loop.simps) simp
    with i1 show ?thesis by blast
  next
    case True
    then have "RunReadyTasks_loop w = RunReadyTasks_loop w1"
      using n by (subst RunReadyTasks_loop.simps) simp
    moreover from "1.IH" [OF n refl True i1]
    obtain w' where "RunReadyTasks_loop w1 = Inr w'" "throttle_inv limits w'"
      by blast
    ultimately show ?thesis by auto
  qed
qed

lemma throttle_inv_running_internal:
  "throttle_inv limits (w\<lparr> scheduler := (scheduler w)\<lparr> running_internal := b \<rparr> \<rparr>)
     = throttle_inv limits w"
  by (simp add: throttle_inv_def)

lemma RunReadyTasks_inv:
  assumes inv: "throttle_inv limits w" and pos: "\<forall>l\<in>set limits. 0 < count l"
  shows "\<exists>w'. RunReadyTasks w = Inr w' \<and> throttle_inv limits w'"
proof -
  have "throttle_inv limits (w\<lparr> scheduler := (scheduler w)\<lparr> running_internal := True \<rparr> \<rparr>)"
    using inv by (simp only: throttle_inv_running_internal)
  from RunReadyTasks_loop_inv [OF pos this]
  obtain w1 where w1: "RunReadyTasks_loop
      (w\<lparr> scheduler := (scheduler w)\<lparr> running_internal := True \<rparr> \<rparr>) = Inr w1"
    "throttle_inv limits w1"
    by blast
  have "throttle_inv limits (w1\<lparr> scheduler := (scheduler w1)\<lparr> running_internal := False \<rparr> \<rparr>)"
    using w1(2) by (simp only: throttle_inv_running_internal)
  with w1(1) show ?thesis
    by (simp add: RunReadyTasks_def and_then_def)
qed

lemma Time_passes_inv:
  assumes inv: "throttle_inv limits w" and d: "0 \<le> d"
  shows "throttle_inv limits (w\<lparr> scheduler := ModifyTime d (scheduler w) \<rparr>)"
proof -
  note i = throttle_invE [OF inv]
  let ?now = "current_time (scheduler w)"
  have li: "log_inv limits (?now + d) (listener_runs w) (recent_event_times (throttle w))"
    using log_inv_time [OF i(5), of "?now + d"] d by simp
  have ti: "timer_inv limits (?now + d) (recent_event_times (throttle w))
              (timer_scheduled (throttle w)) (work_queue (scheduler w))"
    using i(6) d unfolding timer_inv_def by (auto split: if_splits)
  show ?thesis
    unfolding throttle_inv_def using i(1,2,3,4,7) li ti by (simp add: ModifyTime_def)
qed

lemma throttle_events_inv:
  assumes pos: "\<forall>l\<in>set limits. 0 < count l"
  shows "throttle_inv limits w \<Longrightarrow> list_all time_forward evs \<Longrightarrow>
           \<exists>w'. throttle_events evs w = Inr w' \<and> throttle_inv limits w'"
proof (induction evs arbitrary: w)
  case Nil
  then show ?case by simp
next
  case (Cons ev evs)
  have "\<exists>w1. throttle_event ev w = Inr w1 \<and> throttle_inv limits w1"
  proof (cases ev)
    case Do_Fire
    with Fire_inv [OF Cons.prems(1) pos] show ?thesis by simp
  next
    case (Time_passes d)
    with Cons.prems(2) have "0 \<le> d" by simp
    from Time_passes_inv [OF Cons.prems(1) this] Time_passes show ?thesis by simp
  next
    case Do_RunReadyTasks
    with RunReadyTasks_inv [OF Cons.prems(1) pos] show ?thesis by simp
  qed
  then obtain w1 where w1: "throttle_event ev w = Inr w1" "throttle_inv limits w1"
    by blast
  from Cons.IH [OF w1(2)] Cons.prems(2)
  obtain w' where "throttle_events evs w1 = Inr w'" "throttle_inv limits w'"
    by auto
  with w1(1) show ?case
    by (simp add: and_then_def)
qed

lemma ThrottleTest_start_inv: "throttle_inv limits (ThrottleTest_start limits lsn)"
  by (simp add: throttle_inv_def ThrottleTest_start_def Throttle_new_def StartScheduler_def
      DeterministicScheduler_new_def GetCurrentTime_def Let_def log_inv_start timer_inv_def)

subsection \<open>The storm\<close>

lemma drop_old_earlier:
  assumes "drop_old limits later recent = recent" "now \<le> later"
  shows "drop_old limits now recent = recent"
proof (cases "largest_window limits")
  case None
  then show ?thesis by (simp add: drop_old_def)
next
  case (Some W)
  with assms(1) have "\<forall>t\<in>set recent. \<not> later - t > W"
    by (simp add: drop_old_def filter_id_conv)
  then have "\<forall>t\<in>set recent. \<not> now - t > W"
    using assms(2) by fastforce
  then show ?thesis
    using Some by (simp add: drop_old_def filter_id_conv)
qed

lemma idle_iteration:
  assumes "timer_scheduled (throttle w)" "\<not> running_internal (scheduler w)"
    and pos: "\<forall>l\<in>set (rate_limits (throttle w)). 0 < count l"
    and l: "l \<in> set (rate_limits (throttle w))"
      "count l \<le> length (recent_event_times (throttle w))"
      "current_time (scheduler w)
         - recent_event_times (throttle w)
             ! (length (recent_event_times (throttle w)) - count l) < window_size l"
    and unpruned: "drop_old (rate_limits (throttle w)) (current_time (scheduler w))
                     (recent_event_times (throttle w)) = recent_event_times (throttle w)"
    and q: "work_queue (scheduler w) = [e]" "current_time (scheduler w) + d < time e"
  shows "ThrottlingStorm_iteration d w =
           Inr (w\<lparr> scheduler := (scheduler w)\<lparr> current_time := current_time (scheduler w) + d \<rparr> \<rparr>)"
proof -
  obtain t where "latest_earliest_legal (current_time (scheduler w))
      (recent_event_times (throttle w)) (rate_limits (throttle w)) = Inr (Some t)"
    using latest_earliest_legal_violated [OF pos l] by blast
  then have fire: "Fire w = Inr w"
    using assms(1) unpruned
    by (simp add: Fire_def Let_def and_then_def GetCurrentTime_def)
  let ?w1 = "w\<lparr> scheduler := (scheduler w)
                 \<lparr> current_time := current_time (scheduler w) + d, running_internal := True \<rparr> \<rparr>"
  have "RunNextTask ?w1 = Inr (False, ?w1)"
    using q by (simp add: RunNextTask_def GetCurrentTime_def)
  then have "RunReadyTasks_loop ?w1 = Inr ?w1"
    by (subst RunReadyTasks_loop.simps) simp
  then have "RunReadyTasks (w\<lparr> scheduler := ModifyTime d (scheduler w) \<rparr>) =
               Inr (w\<lparr> scheduler := (scheduler w)
                 \<lparr> current_time := current_time (scheduler w) + d, running_internal := False \<rparr> \<rparr>)"
    by (simp add: RunReadyTasks_def ModifyTime_def and_then_def)
  moreover have "(scheduler w)\<lparr> current_time := current_time (scheduler w) + d,
                    running_internal := False \<rparr>
                 = (scheduler w)\<lparr> current_time := current_time (scheduler w) + d \<rparr>"
    using assms(2) by simp
  ultimately show ?thesis
    using fire by (simp add: ThrottlingStorm_iteration_def and_then_def)
qed

declare ThrottlingStorm_loop.simps [simp del]

lemma idle_iterations_skip:
  fixes k :: nat
  assumes "timer_scheduled (throttle w)" "\<not> running_internal (scheduler w)"
    and pos: "\<forall>l\<in>set (rate_limits (throttle w)). 0 < count l"
    and l: "l \<in> set (rate_limits (throttle w))"
      "count l \<le> length (recent_event_times (throttle w))"
      "current_time (scheduler w) + (int k - 1) * d
         - recent_event_times (throttle w)
             ! (length (recent_event_times (throttle w)) - count l) < window_size l"
    and unpruned: "drop_old (rate_limits (throttle w))
                     (current_time (scheduler w) + (int k - 1) * d)
                     (recent_event_times (throttle w)) = recent_event_times (throttle w)"
    and q: "work_queue (scheduler w) = [e]" "current_time (scheduler w) + int k * d < time e"
    and d: "0 < d" and n: "i + int k \<le> num_iterations"
  shows "ThrottlingStorm_loop i num_iterations d w =
           ThrottlingStorm_loop (i + int k) num_iterations d
             (w\<lparr> scheduler := (scheduler w)
                   \<lparr> current_time := current_time (scheduler w) + int k * d \<rparr> \<rparr>)"
  using assms
proof (induction k arbitrary: w i)
  case 0
  then show ?case by simp
next
  case (Suc k)
  let ?now = "current_time (scheduler w)"
  let ?w1 = "w\<lparr> scheduler := (scheduler w)\<lparr> current_time := ?now + d \<rparr> \<rparr>"
  have le: "?now \<le> ?now + (int (Suc k) - 1) * d"
    using Suc.prems(10) by simp
  have viol: "?now - recent_event_times (throttle w)
             ! (length (recent_event_times (throttle w)) - count l) < window_size l"
    using Suc.prems(6) le by linarith
  have ahead: "?now + d < time e"
  proof -
    have "0 \<le> int k * d" using Suc.prems(10) by simp
    then have "?now + d \<le> ?now + int (Suc k) * d"
      by (simp add: algebra_simps)
    with Suc.prems(9) show ?thesis by linarith
  qed
  have it: "ThrottlingStorm_iteration d w = Inr ?w1"
    by (rule idle_iteration [OF Suc.prems(1,2,3,4,5) viol
          drop_old_earlier [OF Suc.prems(7) le] Suc.prems(8) ahead])
  have step: "ThrottlingStorm_loop i num_iterations d w =
                ThrottlingStorm_loop (i + 1) num_iterations d ?w1"
    using Suc.prems(11) it by (subst ThrottlingStorm_loop.simps) (simp add: and_then_def)
  have t1: "current_time (scheduler ?w1) + (int k - 1) * d = ?now + (int (Suc k) - 1) * d"
    "current_time (scheduler ?w1) + int k * d = ?now + int (Suc k) * d"
    by (simp_all add: algebra_simps)
  have "ThrottlingStorm_loop (i + 1) num_iterations d ?w1 =
          ThrottlingStorm_loop (i + 1 + int k) num_iterations d
            (?w1\<lparr> scheduler := (scheduler ?w1)
                   \<lparr> current_time := current_time (scheduler ?w1) + int k * d \<rparr> \<rparr>)"
  proof (rule Suc.IH)
    show "timer_scheduled (throttle ?w1)" using Suc.prems(1) by simp
    show "\<not> running_internal (scheduler ?w1)" using Suc.prems(2) by simp
    show "\<forall>l\<in>set (rate_limits (throttle ?w1)). 0 < count l" using Suc.prems(3) by simp
    show "l \<in> set (rate_limits (throttle ?w1))" using Suc.prems(4) by simp
    show "count l \<le> length (recent_event_times (throttle ?w1))" using Suc.prems(5) by simp
    show "current_time (scheduler ?w1) + (int k - 1) * d
         - recent_event_times (throttle ?w1)
             ! (length (recent_event_times (throttle ?w1)) - count l) < window_size l"
      using Suc.prems(6) unfolding t1(1) by simp
    show "drop_old (rate_limits (throttle ?w1))
                     (current_time (scheduler ?w1) + (int k - 1) * d)
                     (recent_event_times (throttle ?w1)) = recent_event_times (throttle ?w1)"
      using Suc.prems(7) unfolding t1(1) by simp
    show "work_queue (scheduler ?w1) = [e]" using Suc.prems(8) by simp
    show "current_time (scheduler ?w1) + int k * d < time e"
      using Suc.prems(9) unfolding t1(2) by simp
    show "0 < d" by (rule Suc.prems(10))
    show "i + 1 + int k \<le> num_iterations" using Suc.prems(11) by simp
  qed
  with step show ?case
    by (simp add: algebra_simps)
qed

lemma ThrottlingStorm_loop_skip:
  assumes "0 < idle_iterations i n d w"
  shows "ThrottlingStorm_loop i n d w =
           ThrottlingStorm_loop (i + int (idle_iterations i n d w)) n d
             (w\<lparr> scheduler := (scheduler w)
                   \<lparr> current_time := current_time (scheduler w)
                        + int (idle_iterations i n d w) * d \<rparr> \<rparr>)"
proof -
  let ?now = "current_time (scheduler w)"
  let ?recent = "recent_event_times (throttle w)"
  let ?limits = "rate_limits (throttle w)"
  from assms obtain e where e: "work_queue (scheduler w) = [e]"
    by (auto simp: idle_iterations_def Let_def split: list.splits)
  let ?k = "nat (min ((time e - ?now - 1) div d) (n - i))"
  let ?last = "?now + (int ?k - 1) * d"
  have c: "0 < d \<and> timer_scheduled (throttle w) \<and> \<not> running_internal (scheduler w)
           \<and> list_all (\<lambda>l. 0 < count l) ?limits
           \<and> list_ex (\<lambda>l. count l \<le> length ?recent
                \<and> ?last - ?recent ! (length ?recent - count l) < window_size l) ?limits
           \<and> drop_old ?limits ?last ?recent = ?recent"
    and k: "idle_iterations i n d w = ?k"
    using assms e by (auto simp: idle_iterations_def Let_def split: if_splits)
  have kpos: "0 < ?k"
    using assms k by simp
  obtain l where l: "l \<in> set ?limits" "count l \<le> length ?recent"
    "?last - ?recent ! (length ?recent - count l) < window_size l"
    using c by (auto simp: list_ex_iff)
  have pos: "\<forall>l\<in>set ?limits. 0 < count l"
    using c by (simp add: list_all_iff)
  have d: "0 < d" using c by simp
  have "int ?k \<le> (time e - ?now - 1) div d"
    using kpos by simp
  then have "int ?k * d \<le> (time e - ?now - 1) div d * d"
    using d by (simp add: mult_right_mono)
  also have "\<dots> \<le> time e - ?now - 1"
    using d pos_mod_sign [of d "time e - ?now - 1"]
      div_mult_mod_eq [of "time e - ?now - 1" d] by linarith
  finally have ahead: "?now + int ?k * d < time e"
    by simp
  have n: "i + int ?k \<le> n"
    using kpos by simp
  have "ThrottlingStorm_loop i n d w =
           ThrottlingStorm_loop (i + int ?k) n d
             (w\<lparr> scheduler := (scheduler w)\<lparr> current_time := ?now + int ?k * d \<rparr> \<rparr>)"
    using c by (intro idle_iterations_skip [OF _ _ pos l _ e ahead d n]) simp_all
  then show ?thesis
    unfolding k .
qed

lemma ThrottlingStorm_loop_step:
  assumes "idle_iterations i n d w = 0"
  shows "ThrottlingStorm_loop i n d w =
           (if i < n
            then and_then (ThrottlingStorm_iteration d w) (ThrottlingStorm_loop (i + 1) n d)
            else Inr w)"
  by (rule ThrottlingStorm_loop.simps)

text \<open>The two rules together are an equation for the loop of the storm that jumps over
  the idle iterations; the storm is evaluated with it.\<close>

lemma ThrottlingStorm_loop_skipping [code]:
  "ThrottlingStorm_loop i n d w =
     (let k = idle_iterations i n d w
      in if 0 < k
         then ThrottlingStorm_loop (i + int k) n d
                (w\<lparr> scheduler := (scheduler w)
                      \<lparr> current_time := current_time (scheduler w) + int k * d \<rparr> \<rparr>)
         else if i < n
           then and_then (ThrottlingStorm_iteration d w) (ThrottlingStorm_loop (i + 1) n d)
           else Inr w)"
proof (cases "0 < idle_iterations i n d w")
  case True
  then show ?thesis
    using ThrottlingStorm_loop_skip [OF True] by (simp add: Let_def)
next
  case False
  then show ?thesis
    using ThrottlingStorm_loop_step [of i n d w] by (simp add: Let_def)
qed

text \<open>The outcome of \<open>ThrottleTest.ThrottlingStorm\<close>: the listener runs at the seconds
  0 to 5 of each of the five minutes and once more when the five minutes are over, and
  no assertion of the test fails.\<close>

lemma ThrottlingStorm_outcome:
  "ThrottlingStorm = Inr
     \<lparr> call_count = 31, start_time = 0, last_call_time = 300000000,
       assertion_failed = False,
       scheduler =
         \<lparr> current_time = 300000000, current_id = 30, started = True,
           stopped = False, running_internal = False, work_queue = [] \<rparr>,
       throttle =
         \<lparr> rate_limits = storm_rate_limits,
           listener = IncrementAndCheckRateLimits_closure,
           timer_scheduled = False,
           recent_event_times =
             [241000000, 242000000, 243000000, 244000000, 245000000, 300000000],
           max_recent_events = 6 \<rparr>,
       listener_runs =
         [0, 1000000, 2000000, 3000000, 4000000, 5000000,
          60000000, 61000000, 62000000, 63000000, 64000000, 65000000,
          120000000, 121000000, 122000000, 123000000, 124000000, 125000000,
          180000000, 181000000, 182000000, 183000000, 184000000, 185000000,
          240000000, 241000000, 242000000, 243000000, 244000000, 245000000,
          300000000] \<rparr>"
  by code_simp

lemma ThrottlingStorm_summary:
  "\<exists>w. ThrottlingStorm = Inr w \<and> call_count w = 6 * 5 + 1 \<and> length (listener_runs w) = 31
       \<and> distinct (map (\<lambda>t. t div FromSeconds 1) (listener_runs w))
       \<and> \<not> assertion_failed w"
  unfolding ThrottlingStorm_outcome by (simp add: FromSeconds_def FromMilliseconds_def
      FromMicroseconds_def kMicrosecondsPerMillisecond_def)

lemma timer_inv_queue:
  assumes "timer_inv limits now recent timer queue"
  shows "length queue \<le> 1"
  using assms by (auto simp: timer_inv_def split: if_splits)

text \<open>A limit whose count is zero: every \<open>Fire\<close> stops at the read of
  \<open>recent[size - 0]\<close>, so the listener never runs.\<close>

lemma earliest_legal_error:
  "earliest_legal now recent l = Inl e \<Longrightarrow> e = IndexOutOfRange"
  by (auto simp: earliest_legal_def Let_def split: if_splits)

lemma latest_earliest_legal_zero_count:
  assumes "l \<in> set limits" "count l = 0"
  shows "latest_earliest_legal now recent limits = Inl IndexOutOfRange"
  using assms(1)
proof (induction limits)
  case Nil
  then show ?case by simp
next
  case (Cons x limits)
  show ?case
  proof (cases "earliest_legal now recent x")
    case (Inl e)
    with earliest_legal_error [OF Inl] show ?thesis
      by (simp add: and_then_def)
  next
    case (Inr v)
    have "x \<noteq> l"
      using Inr assms(2) by (auto simp: earliest_legal_def Let_def)
    with Cons have "latest_earliest_legal now recent limits = Inl IndexOutOfRange"
      by auto
    with Inr show ?thesis
      by (simp add: and_then_def)
  qed
qed

lemma Fire_zero_count:
  assumes "l \<in> set (rate_limits (throttle w))" "count l = 0"
  shows "Fire w = Inl IndexOutOfRange"
  using latest_earliest_legal_zero_count [OF assms]
  by (simp add: Fire_def Let_def and_then_def)

lemma RunReadyTasks_empty:
  assumes "work_queue (scheduler w) = []"
  shows "RunReadyTasks w = Inr (w\<lparr> scheduler := (scheduler w)\<lparr> running_internal := False \<rparr> \<rparr>)"
proof -
  let ?w = "w\<lparr> scheduler := (scheduler w)\<lparr> running_internal := True \<rparr> \<rparr>"
  have "RunNextTask ?w = Inr (False, ?w)"
    using assms by (simp add: RunNextTask_def)
  then have "RunReadyTasks_loop ?w = Inr ?w"
    by (subst RunReadyTasks_loop.simps) simp
  then show ?thesis
    by (simp add: RunReadyTasks_def and_then_def)
qed

lemma never_fired_events:
  assumes "l \<in> set limits" "count l = 0"
  shows "never_fired limits w \<Longrightarrow>
           throttle_events evs w = Inl IndexOutOfRange
           \<or> (\<exists>w'. throttle_events evs w = Inr w' \<and> never_fired limits w')"
proof (induction evs arbitrary: w)
  case Nil
  then show ?case by simp
next
  case (Cons e evs)
  show ?case
  proof (cases e)
    case Do_Fire
    have "Fire w = Inl IndexOutOfRange"
      using assms Cons.prems by (intro Fire_zero_count [of l]) (simp_all add: never_fired_def)
    with Do_Fire show ?thesis
      by (simp add: and_then_def)
  next
    case (Time_passes d)
    let ?w = "w\<lparr> scheduler := ModifyTime d (scheduler w) \<rparr>"
    have "never_fired limits ?w"
      using Cons.prems by (simp add: never_fired_def ModifyTime_def)
    from Cons.IH [OF this] Time_passes show ?thesis
      by (simp add: and_then_def)
  next
    case Do_RunReadyTasks
    let ?w = "w\<lparr> scheduler := (scheduler w)\<lparr> running_internal := False \<rparr> \<rparr>"
    have run: "RunReadyTasks w = Inr ?w"
      using Cons.prems by (intro RunReadyTasks_empty) (simp add: never_fired_def)
    have "never_fired limits ?w"
      using Cons.prems by (simp add: never_fired_def)
    from Cons.IH [OF this] Do_RunReadyTasks run show ?thesis
      by (simp add: and_then_def)
  qed
qed

lemma never_fired_start: "never_fired limits (ThrottleTest_start limits lsn)"
  by (simp add: never_fired_def ThrottleTest_start_def Throttle_new_def StartScheduler_def
      DeterministicScheduler_new_def Let_def)

text \<open>Claim C3. Take a throttle with rate limits \<open>(w\<^sub>1, c\<^sub>1), \<dots>, (w\<^sub>n, c\<^sub>n)\<close> and use it
  in any way: calls of \<open>Fire\<close>, time passing (never backwards) and the scheduler running
  its ready tasks, in any order. Then either every step succeeds, and in the state \<open>w\<close>
  reached
  \<^item> every window of duration \<open>w\<^sub>i\<close>, wherever it starts, holds at most \<open>c\<^sub>i\<close> runs of
    the listener, and the test's counter has counted these runs;
  \<^item> the scheduler holds at most one task: no call of \<open>Fire\<close> is queued besides the one
    retry;
  \<^item> a call of \<open>Fire\<close> that arrives during the deferral window (the retry is scheduled
    and its time lies ahead) is dropped: it runs no listener and schedules nothing, the
    only effect being that old times leave the buffer;

  or some count \<open>c\<^sub>i\<close> is zero and a call of \<open>Fire\<close> has stopped at the read of
  \<open>recent[size - 0]\<close>, the listener never having run. In particular the storm of the test
  (limits one per second and six per minute, a call of \<open>Fire\<close> every 10 ms for five
  minutes) ends with exactly \<open>6 * 5 + 1 = 31\<close> runs of the listener, no two of them in
  the same second.\<close>

theorem throttle_keeps_rate_limits:
  assumes "list_all time_forward evs"
  shows "((\<exists>w. throttle_events evs (ThrottleTest_start limits lsn) = Inr w
            \<and> (\<forall>l\<in>set limits. \<forall>t. runs_in_window t (window_size l) (listener_runs w) \<le> count l)
            \<and> call_count w = int (length (listener_runs w))
            \<and> length (work_queue (scheduler w)) \<le> 1
            \<and> (timer_scheduled (throttle w)
                 \<and> (\<forall>e\<in>set (work_queue (scheduler w)). current_time (scheduler w) < time e)
               \<longrightarrow> Fire w = Inr (w\<lparr> throttle := (throttle w)\<lparr> recent_event_times :=
                                 drop_old limits (current_time (scheduler w))
                                   (recent_event_times (throttle w)) \<rparr> \<rparr>)))
          \<or> (throttle_events evs (ThrottleTest_start limits lsn) = Inl IndexOutOfRange
              \<and> (\<exists>l\<in>set limits. count l = 0)
              \<and> (\<forall>k w. throttle_events (take k evs) (ThrottleTest_start limits lsn) = Inr w
                     \<longrightarrow> listener_runs w = [])))
         \<and> (\<exists>w. ThrottlingStorm = Inr w \<and> call_count w = 6 * 5 + 1
               \<and> length (listener_runs w) = 31
               \<and> distinct (map (\<lambda>t. t div FromSeconds 1) (listener_runs w))
               \<and> \<not> assertion_failed w)"
proof (rule conjI)
  let ?start = "ThrottleTest_start limits lsn"
  let ?good = "\<lambda>w. (\<forall>l\<in>set limits. \<forall>t.
                       runs_in_window t (window_size l) (listener_runs w) \<le> count l)
            \<and> call_count w = int (length (listener_runs w))
            \<and> length (work_queue (scheduler w)) \<le> 1
            \<and> (timer_scheduled (throttle w)
                 \<and> (\<forall>e\<in>set (work_queue (scheduler w)). current_time (scheduler w) < time e)
               \<longrightarrow> Fire w = Inr (w\<lparr> throttle := (throttle w)\<lparr> recent_event_times :=
                                 drop_old limits (current_time (scheduler w))
                                   (recent_event_times (throttle w)) \<rparr> \<rparr>))"
  show "(\<exists>w. throttle_events evs ?start = Inr w \<and> ?good w)
          \<or> (throttle_events evs ?start = Inl IndexOutOfRange
              \<and> (\<exists>l\<in>set limits. count l = 0)
              \<and> (\<forall>k w. throttle_events (take k evs) ?start = Inr w \<longrightarrow> listener_runs w = []))"
  proof (cases "\<forall>l\<in>set limits. 0 < count l")
    case True
    from throttle_events_inv [OF True ThrottleTest_start_inv assms]
    obtain w where w: "throttle_events evs ?start = Inr w"
      and inv: "throttle_inv limits w"
      by blast
    have windows: "\<forall>l\<in>set limits. \<forall>t.
        runs_in_window t (window_size l) (listener_runs w) \<le> count l"
      using log_inv_windows [OF throttle_invE(5) [OF inv]] by blast
    have queue: "length (work_queue (scheduler w)) \<le> 1"
      using timer_inv_queue [OF throttle_invE(6) [OF inv]] .
    have dropped: "timer_scheduled (throttle w)
         \<and> (\<forall>e\<in>set (work_queue (scheduler w)). current_time (scheduler w) < time e)
       \<longrightarrow> Fire w = Inr (w\<lparr> throttle := (throttle w)\<lparr> recent_event_times :=
                         drop_old limits (current_time (scheduler w))
                           (recent_event_times (throttle w)) \<rparr> \<rparr>)"
      using Fire_deferred [OF inv True] by blast
    have "?good w"
      using windows throttle_invE(7) [OF inv] queue dropped by blast
    with w show ?thesis
      by blast
  next
    case False
    then obtain l where l: "l \<in> set limits" "count l = 0"
      by auto
    note ev = never_fired_events [OF l never_fired_start, of _ lsn]
    show ?thesis
    proof (cases "throttle_events evs ?start")
      case (Inl e)
      with ev [of evs] have e: "throttle_events evs ?start = Inl IndexOutOfRange"
        by auto
      have "\<forall>k w. throttle_events (take k evs) ?start = Inr w \<longrightarrow> listener_runs w = []"
      proof (intro allI impI)
        fix k w
        assume "throttle_events (take k evs) ?start = Inr w"
        with ev [of "take k evs"] show "listener_runs w = []"
          by (auto simp: never_fired_def)
      qed
      with e l show ?thesis
        by blast
    next
      case (Inr w)
      with ev [of evs] have n: "never_fired limits w"
        by auto
      then have "?good w"
        by (simp add: never_fired_def runs_in_window_def)
      with Inr show ?thesis
        by blast
    qed
  qed
next
  show "\<exists>w. ThrottlingStorm = Inr w \<and> call_count w = 6 * 5 + 1
          \<and> length (listener_runs w) = 31
          \<and> distinct (map (\<lambda>t. t div FromSeconds 1) (listener_runs w))
          \<and> \<not> assertion_failed w"
    by (rule ThrottlingStorm_summary)
qed

text \<open>The theorem at work on the limits of the storm: a call of \<open>Fire\<close> runs the
  listener, a second one 10 ms later arms the retry for the end of the second, and half a
  second later, during the deferral window, a third call changes nothing.\<close>

theorem throttle_keeps_rate_limits_witness:
  "list_all time_forward
        [Do_Fire, Time_passes 10000, Do_Fire, Do_RunReadyTasks, Time_passes 500000]
   \<and> throttle_events
        [Do_Fire, Time_passes 10000, Do_Fire, Do_RunReadyTasks, Time_passes 500000]
        (ThrottleTest_start storm_rate_limits IncrementCounter_closure)
      = Inr \<lparr> call_count = 1, start_time = 0, last_call_time = - 3600000000,
              assertion_failed = False,
              scheduler =
                \<lparr> current_time = 510000, current_id = 1, started = True, stopped = False,
                  running_internal = False,
                  work_queue = [\<lparr> time = 1000000, immediate = False, entry_id = 0,
                                   task = RetryFire_closure \<rparr>] \<rparr>,
              throttle =
                \<lparr> rate_limits = storm_rate_limits, listener = IncrementCounter_closure,
                  timer_scheduled = True, recent_event_times = [0], max_recent_events = 6 \<rparr>,
              listener_runs = [0] \<rparr>
   \<and> runs_in_window 0 (FromSeconds 1) [0] \<le> 1
   \<and> Fire \<lparr> call_count = 1, start_time = 0, last_call_time = - 3600000000,
              assertion_failed = False,
              scheduler =
                \<lparr> current_time = 510000, current_id = 1, started = True, stopped = False,
                  running_internal = False,
                  work_queue = [\<lparr> time = 1000000, immediate = False, entry_id = 0,
                                   task = RetryFire_closure \<rparr>] \<rparr>,
              throttle =
                \<lparr> rate_limits = storm_rate_limits, listener = IncrementCounter_closure,
                  timer_scheduled = True, recent_event_times = [0], max_recent_events = 6 \<rparr>,
              listener_runs = [0] \<rparr>
      = Inr \<lparr> call_count = 1, start_time = 0, last_call_time = - 3600000000,
              assertion_failed = False,
              scheduler =
                \<lparr> current_time = 510000, current_id = 1, started = True, stopped = False,
                  running_internal = False,
                  work_queue = [\<lparr> time = 1000000, immediate = False, entry_id = 0,
                                   task = RetryFire_closure \<rparr>] \<rparr>,
              throttle =
                \<lparr> rate_limits = storm_rate_limits, listener = IncrementCounter_closure,
                  timer_scheduled = True, recent_event_times = [0], max_recent_events = 6 \<rparr>,
              listener_runs = [0] \<rparr>"
proof -
  let ?evs = "[Do_Fire, Time_passes 10000, Do_Fire, Do_RunReadyTasks, Time_passes 500000]"
  let ?w = "\<lparr> call_count = 1, start_time = 0, last_call_time = - 3600000000,
              assertion_failed = False,
              scheduler =
                \<lparr> current_time = 510000, current_id = 1, started = True, stopped = False,
                  running_internal = False,
                  work_queue = [\<lparr> time = 1000000, immediate = False, entry_id = 0,
                                   task = RetryFire_closure \<rparr>] \<rparr>,
              throttle =
                \<lparr> rate_limits = storm_rate_limits, listener = IncrementCounter_closure,
                  timer_scheduled = True, recent_event_times = [0], max_recent_events = 6 \<rparr>,
              listener_runs = [0] \<rparr>"
  have fwd: "list_all time_forward ?evs"
    by simp
  have run: "throttle_events ?evs (ThrottleTest_start storm_rate_limits IncrementCounter_closure)
             = Inr ?w"
    by code_simp
  have first: "\<lparr> window_size = FromSeconds 1, count = 1 \<rparr> \<in> set storm_rate_limits"
    by (simp add: storm_rate_limits_def kMessagesPerSecond_def)
  have old: "drop_old storm_rate_limits 510000 [0] = [0]"
    by code_simp
  from throttle_keeps_rate_limits [OF fwd, of storm_rate_limits IncrementCounter_closure]
  have "(\<forall>l\<in>set storm_rate_limits. \<forall>t. runs_in_window t (window_size l) (listener_runs ?w) \<le> count l)
      \<and> (timer_scheduled (throttle ?w)
                 \<and> (\<forall>e\<in>set (work_queue (scheduler ?w)). current_time (scheduler ?w) < time e)
               \<longrightarrow> Fire ?w = Inr (?w\<lparr> throttle := (throttle ?w)\<lparr> recent_event_times :=
                                 drop_old storm_rate_limits (current_time (scheduler ?w))
                                   (recent_event_times (throttle ?w)) \<rparr> \<rparr>))"
    unfolding run by blast
  then have "runs_in_window 0 (FromSeconds 1) [0] \<le> 1" and "Fire ?w = Inr ?w"
    using first old by (force, simp)
  with fwd run show ?thesis
    by simp
qed

section \<open>Properties of InvalidationClientImpl\<close>

subsection \<open>The members and the history after each step\<close>

lemma call_simps:
  "calls (call c s) = calls s @ [c]"
  "config (call c s) = config s"
  "awaiting_seqno_writeback (call c s) = awaiting_seqno_writeback s"
  "pending_invalidation_acks (call c s) = pending_invalidation_acks s"
  by (simp_all add: call_def)

lemma hand_message_simps:
  "calls (snd (hand_message env c ms)) = calls (snd ms) @ [c]"
  "config (snd (hand_message env c ms)) = config (snd ms)"
  "awaiting_seqno_writeback (snd (hand_message env c ms)) = awaiting_seqno_writeback (snd ms)"
  "pending_invalidation_acks (snd (hand_message env c ms)) = pending_invalidation_acks (snd ms)"
  by (simp_all add: hand_message_def call_simps)

lemma add_client_stamp_frame:
  assumes "add_client_stamp env ack s = (ack', s')"
  shows "config s' = config s"
    and "awaiting_seqno_writeback s' = awaiting_seqno_writeback s"
    and "pending_invalidation_acks s' = pending_invalidation_acks s"
    and "calls s' = calls s @ (if component_stamp_log ack = None then [] else [Resources_current_time])"
  using assms
  by (auto simp: add_client_stamp_def ask_time_def call_simps split: option.splits)

declare TakeOutboundMessage_acks.simps [simp del]

lemma TakeOutboundMessage_acks_stop:
  assumes "pending_invalidation_acks s = [] \<or> \<not> rc + sent < max_ops_per_message (config s)"
  shows "TakeOutboundMessage_acks env rc sent (message, s) = (message, s)"
  using assms by (subst TakeOutboundMessage_acks.simps) auto

lemma TakeOutboundMessage_acks_step:
  assumes "pending_invalidation_acks s \<noteq> []" "rc + sent < max_ops_per_message (config s)"
    and "add_client_stamp env (last (pending_invalidation_acks s)) s = (ack, s1)"
  shows "TakeOutboundMessage_acks env rc sent (message, s) =
           TakeOutboundMessage_acks env rc (sent + 1)
             (message\<lparr> acked_invalidation := acked_invalidation message @ [ack] \<rparr>,
              s1\<lparr> pending_invalidation_acks := butlast (pending_invalidation_acks s1) \<rparr>)"
  using assms by (subst TakeOutboundMessage_acks.simps) simp

lemma TakeOutboundMessage_acks_frame:
  "TakeOutboundMessage_acks env rc sent (message, s) = (message', s') \<Longrightarrow>
     config s' = config s
     \<and> awaiting_seqno_writeback s' = awaiting_seqno_writeback s
     \<and> (\<exists>m. calls s' = calls s @ replicate m Resources_current_time)"
proof (induction env rc sent "(message, s)" arbitrary: message s
    rule: TakeOutboundMessage_acks.induct)
  case (1 env rc sent message s)
  show ?case
  proof (cases "\<not> pending_invalidation_acks s = []
         \<and> rc + sent < max_ops_per_message (config s)")
    case False
    then have "TakeOutboundMessage_acks env rc sent (message, s) = (message, s)"
      by (intro TakeOutboundMessage_acks_stop) auto
    with "1.prems" show ?thesis
      by (auto intro: exI [of _ 0])
  next
    case True
    obtain ack s1 where st: "add_client_stamp env (last (pending_invalidation_acks s)) s = (ack, s1)"
      by (cases "add_client_stamp env (last (pending_invalidation_acks s)) s")
    note fr = add_client_stamp_frame [OF st]
    let ?m1 = "message\<lparr> acked_invalidation := acked_invalidation message @ [ack] \<rparr>"
    let ?s2 = "s1\<lparr> pending_invalidation_acks := butlast (pending_invalidation_acks s1) \<rparr>"
    have rec: "TakeOutboundMessage_acks env rc (sent + 1) (?m1, ?s2) = (message', s')"
      using "1.prems" TakeOutboundMessage_acks_step [of s rc sent env ack s1 message] True st
      by simp
    from "1.hyps" [OF True st [symmetric] refl refl refl rec]
    obtain m where ih: "config s' = config ?s2"
      "awaiting_seqno_writeback s' = awaiting_seqno_writeback ?s2"
      "calls s' = calls ?s2 @ replicate m Resources_current_time"
      by auto
    show ?thesis
    proof (cases "component_stamp_log (last (pending_invalidation_acks s)) = None")
      case True
      then show ?thesis using ih fr by auto
    next
      case False
      then have "calls s' = calls s @ replicate (Suc m) Resources_current_time"
        using ih fr by (simp add: replicate_app_Cons_same)
      then show ?thesis using ih fr by (auto simp del: replicate_Suc)
    qed
  qed
qed


subsection \<open>Startup from a persisted state blob\<close>

text \<open>
  C1. When the state blob parses, the constructor (after reading the clock for the seed
  of its random number generator) makes the two managers from it,
  tells the registration manager and the listener of the session, and writes back a blob
  whose \<open>sequence_number_limit\<close> is the persisted one plus \<open>seqno_block_size\<close> (64-bit
  addition); the client then awaits the result. The callback of that write, run with
  \<open>success\<close>, clears \<open>awaiting_seqno_writeback_\<close> and, under the lock, calls
  \<open>UpdateMaximumSeqno\<close> of the registration manager with exactly the new limit when
  \<open>success\<close> is true and \<open>ForgetClientId\<close> when it is false; it does nothing else.
\<close>

theorem persisted_restart_claims_next_block:
  assumes "DeserializeState env blob = Some st"
  shows "calls (InvalidationClientImpl_new env cfg blob) =
           [Resources_current_time,
            SM_new (uniquifier st) (session_token st),
            RM_new (sequence_number_limit st),
            RM_HandleNewSession,
            ScheduleOnListenerThread (Listener_SessionStatusChanged True),
            PM_WriteState
              (SerializeState env
                 (st\<lparr> sequence_number_limit := sequence_number_limit st + seqno_block_size cfg \<rparr>))
              (HandleSeqnoWritebackResult_callback
                 (sequence_number_limit st + seqno_block_size cfg)),
            ScheduleImmediately PeriodicTask_task]
       \<and> awaiting_seqno_writeback (InvalidationClientImpl_new env cfg blob)
       \<and> WriteCallback_Run
            (HandleSeqnoWritebackResult_callback (sequence_number_limit st + seqno_block_size cfg))
            success t =
          t\<lparr> awaiting_seqno_writeback := False,
              calls := calls t @
                [Lock_acquire,
                 if success
                 then RM_UpdateMaximumSeqno (sequence_number_limit st + seqno_block_size cfg)
                 else Call_ForgetClientId,
                 Lock_release] \<rparr>"
  using assms
  by (simp add: InvalidationClientImpl_new_def AllocateNewSequenceNumbers_def
      HandleSeqnoWritebackResult_def ForgetClientId_def ask_time_def call_def Let_def)

text \<open>Scenario 2 and 3 of the specification: the blob holds the limit 100 and the block
  size is 50, so the limit written back, and adopted on success, is 150.\<close>

theorem persisted_restart_claims_next_block_witness:
  "DeserializeState example_env ''x''
     = Some \<lparr> uniquifier = ''u'', session_token = ''t'', sequence_number_limit = 100 \<rparr>
   \<and> calls (InvalidationClientImpl_new example_env example_config ''x'') =
       [Resources_current_time, SM_new ''u'' ''t'', RM_new 100, RM_HandleNewSession,
        ScheduleOnListenerThread (Listener_SessionStatusChanged True),
        PM_WriteState ''blob'' (HandleSeqnoWritebackResult_callback 150),
        ScheduleImmediately PeriodicTask_task]
   \<and> calls (WriteCallback_Run (HandleSeqnoWritebackResult_callback 150) True
              (InvalidationClientImpl_new example_env example_config ''x'')) =
       [Resources_current_time, SM_new ''u'' ''t'', RM_new 100, RM_HandleNewSession,
        ScheduleOnListenerThread (Listener_SessionStatusChanged True),
        PM_WriteState ''blob'' (HandleSeqnoWritebackResult_callback 150),
        ScheduleImmediately PeriodicTask_task,
        Lock_acquire, RM_UpdateMaximumSeqno 150, Lock_release]
   \<and> calls (WriteCallback_Run (HandleSeqnoWritebackResult_callback 150) False
              (InvalidationClientImpl_new example_env example_config ''x'')) =
       [Resources_current_time, SM_new ''u'' ''t'', RM_new 100, RM_HandleNewSession,
        ScheduleOnListenerThread (Listener_SessionStatusChanged True),
        PM_WriteState ''blob'' (HandleSeqnoWritebackResult_callback 150),
        ScheduleImmediately PeriodicTask_task,
        Lock_acquire, Call_ForgetClientId, Lock_release]"
  using persisted_restart_claims_next_block
    [of example_env "''x''"
        "\<lparr> uniquifier = ''u'', session_token = ''t'', sequence_number_limit = 100 \<rparr>"
        example_config True "InvalidationClientImpl_new example_env example_config ''x''"]
    persisted_restart_claims_next_block
    [of example_env "''x''"
        "\<lparr> uniquifier = ''u'', session_token = ''t'', sequence_number_limit = 100 \<rparr>"
        example_config False "InvalidationClientImpl_new example_env example_config ''x''"]
  by (simp add: example_env_def example_config_def)

subsection \<open>While the writeback is awaited\<close>

lemma TakeOutboundMessage_object_control_frame:
  assumes "TakeOutboundMessage_object_control env ms = (message', s')"
  shows "config s' = config (snd ms)"
    and "awaiting_seqno_writeback s' = awaiting_seqno_writeback (snd ms)"
proof -
  show "config s' = config (snd ms)"
    using assms TakeOutboundMessage_acks_frame
      [of env _ 0 "fst (hand_message env NM_AddHeartbeat ms)"
          "snd (hand_message env NM_AddHeartbeat ms)" message' s']
    by (cases ms) (auto simp: TakeOutboundMessage_object_control_def Let_def hand_message_simps
        split: if_splits prod.splits)
  show "awaiting_seqno_writeback s' = awaiting_seqno_writeback (snd ms)"
    using assms TakeOutboundMessage_acks_frame
      [of env _ 0 "fst (hand_message env NM_AddHeartbeat ms)"
          "snd (hand_message env NM_AddHeartbeat ms)" message' s']
    by (cases ms) (auto simp: TakeOutboundMessage_object_control_def Let_def hand_message_simps
        split: if_splits prod.splits)
qed

lemma TakeOutboundMessage_build_awaiting:
  assumes "TakeOutboundMessage_build env s = (message', s')"
  shows "awaiting_seqno_writeback s' = awaiting_seqno_writeback s"
proof -
  let ?ms1 = "hand_message env SM_AddSessionAction (ClientToServerMessage_new env, s)"
  let ?ms2 = "if \<not> has_message_type (fst ?ms1) then hand_message env RM_AddOutboundData ?ms1
              else ?ms1"
  let ?ms3 = "TakeOutboundMessage_object_control env ?ms2"
  have a2: "awaiting_seqno_writeback (snd ?ms2) = awaiting_seqno_writeback s"
    by (simp add: hand_message_simps)
  have a3: "awaiting_seqno_writeback (snd ?ms3) = awaiting_seqno_writeback (snd ?ms2)"
    by (rule TakeOutboundMessage_object_control_frame(2) [of env ?ms2 "fst ?ms3"]) simp
  have "s' = snd (hand_message env NM_FinalizeOutboundMessage ?ms3)"
    using assms by (simp add: TakeOutboundMessage_build_def Let_def)
  then show ?thesis
    using a2 a3 by (simp add: hand_message_simps)
qed

lemma TakeOutboundMessage_awaiting:
  assumes "TakeOutboundMessage env thread s = Inr (bytes, s')"
  shows "awaiting_seqno_writeback s' = awaiting_seqno_writeback s"
proof -
  obtain message s1 where b: "TakeOutboundMessage_build env (call Lock_acquire s) = (message, s1)"
    by (cases "TakeOutboundMessage_build env (call Lock_acquire s)")
  from assms b have "s' = call Lock_release s1"
    by (auto simp: TakeOutboundMessage_def split: if_splits)
  with TakeOutboundMessage_build_awaiting [OF b] show ?thesis
    by (simp add: call_simps)
qed

lemma HandleInboundMessage_awaiting:
  assumes "awaiting_seqno_writeback s"
  shows "HandleInboundMessage env thread message s =
           (if thread = InternalThread then Inl CheckFailed
            else Inr (s\<lparr> calls := calls s @ [Lock_acquire, Lock_release] \<rparr>))"
  using assms
  by (simp add: HandleInboundMessage_def IsRunningOnInternalThread_def call_def)

lemma PeriodicTask_awaiting:
  assumes "awaiting_seqno_writeback s"
  shows "PeriodicTask env r s =
           and_then (SmearDelay (periodic_task_interval (config s)) (smear_factor (config s)) r)
             (\<lambda>smeared_delay.
                Inr (s\<lparr> calls := calls s @
                       [Lock_acquire, PM_DoPeriodicCheck,
                        ScheduleWithDelay smeared_delay PeriodicTask_task, Lock_release] \<rparr>))"
  using assms
  by (simp add: PeriodicTask_def call_def Let_def and_then_def split: sum.splits)

lemma enter_keeps_awaiting:
  assumes "awaiting_seqno_writeback s" "enter env e s = Inr s'"
    and "\<forall>m success. e \<noteq> Run_HandleSeqnoWritebackResult m success"
  shows "awaiting_seqno_writeback s'"
proof (cases e)
  case (Enter_Register thread oid)
  with assms show ?thesis
    by (auto simp: Register_def call_simps split: if_splits)
next
  case (Enter_Unregister thread oid)
  with assms show ?thesis
    by (auto simp: Unregister_def call_simps split: if_splits)
next
  case (Enter_PermanentShutdown thread)
  with assms show ?thesis
    by (auto simp: PermanentShutdown_def call_simps split: if_splits)
next
  case (Enter_HandleInboundMessage thread message)
  with assms show ?thesis
    by (auto simp: HandleInboundMessage_awaiting split: if_splits)
next
  case (Enter_TakeOutboundMessage thread)
  with assms(2) obtain bytes where "TakeOutboundMessage env thread s = Inr (bytes, s')"
    by (auto simp: and_then_def split: sum.splits)
  from TakeOutboundMessage_awaiting [OF this] assms(1) show ?thesis
    by simp
next
  case (Enter_RegisterOutboundListener thread l)
  with assms show ?thesis
    by (auto simp: RegisterOutboundListener_def call_simps split: if_splits)
next
  case (Run_PeriodicTask r)
  with assms show ?thesis
    by (auto simp: PeriodicTask_awaiting and_then_def split: sum.splits)
next
  case (Run_AcknowledgeInvalidation ack)
  with assms show ?thesis
    by (auto simp: AcknowledgeInvalidation_def call_def Let_def)
next
  case (Run_ScheduleAcknowledgeInvalidation ack)
  with assms show ?thesis
    by (auto simp: ScheduleAcknowledgeInvalidation_def call_def)
next
  case (Run_HandleSeqnoWritebackResult m success)
  with assms(3) show ?thesis by blast
next
  case (Run_HandleBestEffortWrite result)
  with assms show ?thesis
    by (auto simp: HandleBestEffortWrite_def)
qed

text \<open>
  C2. While \<open>awaiting_seqno_writeback_\<close> is true:
  \<^item> \<open>HandleInboundMessage\<close>, called from an external thread, takes and releases the lock
    and does nothing else: no call on the session manager or any other collaborator, no
    change of a member (called on the internal thread it fails its \<open>CHECK\<close>);
  \<^item> \<open>PeriodicTask\<close> calls \<open>DoPeriodicCheck\<close> of the persistence manager and reschedules
    itself with the smeared delay, and makes no other call: no \<open>OutboundDataReady\<close>;
  \<^item> the flag stays true across every way into the client but
    \<open>HandleSeqnoWritebackResult\<close>, which clears it.
\<close>

theorem blocked_while_awaiting_writeback:
  assumes "awaiting_seqno_writeback s"
  shows "HandleInboundMessage env thread message s =
           (if thread = InternalThread then Inl CheckFailed
            else Inr (s\<lparr> calls := calls s @ [Lock_acquire, Lock_release] \<rparr>))
       \<and> PeriodicTask env r s =
           and_then (SmearDelay (periodic_task_interval (config s)) (smear_factor (config s)) r)
             (\<lambda>smeared_delay.
                Inr (s\<lparr> calls := calls s @
                       [Lock_acquire, PM_DoPeriodicCheck,
                        ScheduleWithDelay smeared_delay PeriodicTask_task, Lock_release] \<rparr>))
       \<and> (enter env e s = Inr s' \<and> (\<forall>m success. e \<noteq> Run_HandleSeqnoWritebackResult m success)
            \<longrightarrow> awaiting_seqno_writeback s')
       \<and> \<not> awaiting_seqno_writeback (HandleSeqnoWritebackResult m success s)"
proof (intro conjI impI)
  show "HandleInboundMessage env thread message s =
           (if thread = InternalThread then Inl CheckFailed
            else Inr (s\<lparr> calls := calls s @ [Lock_acquire, Lock_release] \<rparr>))"
    using assms by (rule HandleInboundMessage_awaiting)
  show "PeriodicTask env r s =
           and_then (SmearDelay (periodic_task_interval (config s)) (smear_factor (config s)) r)
             (\<lambda>smeared_delay.
                Inr (s\<lparr> calls := calls s @
                       [Lock_acquire, PM_DoPeriodicCheck,
                        ScheduleWithDelay smeared_delay PeriodicTask_task, Lock_release] \<rparr>))"
    using assms by (rule PeriodicTask_awaiting)
  show "\<not> awaiting_seqno_writeback (HandleSeqnoWritebackResult m success s)"
    by (simp add: HandleSeqnoWritebackResult_def ForgetClientId_def call_def Let_def)
next
  assume "enter env e s = Inr s' \<and> (\<forall>m success. e \<noteq> Run_HandleSeqnoWritebackResult m success)"
  with assms show "awaiting_seqno_writeback s'"
    by (auto intro: enter_keeps_awaiting)
qed

text \<open>The client restarted from a state blob awaits its writeback: an inbound message is
  dropped, a tick only reschedules itself (half a second, smeared by the draw 0.75 to
  0.55 seconds), and the flag is still set afterwards.\<close>

theorem blocked_while_awaiting_writeback_witness:
  "awaiting_seqno_writeback (InvalidationClientImpl_new example_env example_config ''x'')
   \<and> HandleInboundMessage example_env ExternalThread ''m''
        (InvalidationClientImpl_new example_env example_config ''x'') =
       Inr ((InvalidationClientImpl_new example_env example_config ''x'')
              \<lparr> calls := calls (InvalidationClientImpl_new example_env example_config ''x'')
                           @ [Lock_acquire, Lock_release] \<rparr>)
   \<and> PeriodicTask example_env (3 / 4)
        (InvalidationClientImpl_new example_env example_config ''x'') =
       Inr ((InvalidationClientImpl_new example_env example_config ''x'')
              \<lparr> calls := calls (InvalidationClientImpl_new example_env example_config ''x'')
                           @ [Lock_acquire, PM_DoPeriodicCheck,
                              ScheduleWithDelay 550000 PeriodicTask_task, Lock_release] \<rparr>)
   \<and> enter example_env (Run_PeriodicTask (3 / 4))
        (InvalidationClientImpl_new example_env example_config ''x'') =
       Inr ((InvalidationClientImpl_new example_env example_config ''x'')
              \<lparr> calls := calls (InvalidationClientImpl_new example_env example_config ''x'')
                           @ [Lock_acquire, PM_DoPeriodicCheck,
                              ScheduleWithDelay 550000 PeriodicTask_task, Lock_release] \<rparr>)
   \<and> awaiting_seqno_writeback
        ((InvalidationClientImpl_new example_env example_config ''x'')
              \<lparr> calls := calls (InvalidationClientImpl_new example_env example_config ''x'')
                           @ [Lock_acquire, PM_DoPeriodicCheck,
                              ScheduleWithDelay 550000 PeriodicTask_task, Lock_release] \<rparr>)"
proof -
  have a: "awaiting_seqno_writeback (InvalidationClientImpl_new example_env example_config ''x'')"
    by (simp add: InvalidationClientImpl_new_def AllocateNewSequenceNumbers_def ask_time_def
        call_def Let_def example_env_def)
  have c: "config (InvalidationClientImpl_new example_env example_config ''x'') = example_config"
    by (simp add: InvalidationClientImpl_new_def AllocateNewSequenceNumbers_def ask_time_def
        call_def Let_def example_env_def)
  have d: "SmearDelay (periodic_task_interval example_config) (smear_factor example_config) (3 / 4)
             = Inr 550000"
    by (simp add: example_config_def SmearDelay_example)
  show ?thesis
    using blocked_while_awaiting_writeback
      [OF a, of example_env ExternalThread "''m''" "3 / 4" "Run_PeriodicTask (3 / 4)"
          "(InvalidationClientImpl_new example_env example_config ''x'')
              \<lparr> calls := calls (InvalidationClientImpl_new example_env example_config ''x'')
                           @ [Lock_acquire, PM_DoPeriodicCheck,
                              ScheduleWithDelay 550000 PeriodicTask_task, Lock_release] \<rparr>"]
    by (simp add: a c d and_then_def)
qed

subsection \<open>The periodic tick\<close>

lemma PeriodicTask_checks_eq:
  "PeriodicTask_checks env s =
     (let h = calls s @ [RM_current_op_seqno, RM_maximum_op_seqno_inclusive]
                @ (if sint (int64_answer env (calls s @ [RM_current_op_seqno]))
                      > sint (int64_answer env
                                (calls s @ [RM_current_op_seqno, RM_maximum_op_seqno_inclusive]))
                   then [Call_ForgetClientId] else [])
      in ((bool_answer env (h @ [SM_HasDataToSend]),
           bool_answer env (h @ [SM_HasDataToSend, RM_DoPeriodicRegistrationCheck]),
           bool_answer env (h @ [SM_HasDataToSend, RM_DoPeriodicRegistrationCheck,
                                 NM_HasDataToSend])),
          s\<lparr> calls := h @ [SM_HasDataToSend, RM_DoPeriodicRegistrationCheck,
                            NM_HasDataToSend] \<rparr>))"
  by (simp add: PeriodicTask_checks_def ask_int64_def ask_bool_def ForgetClientId_def
      call_def Let_def)

lemma PeriodicTask_send_eq:
  "PeriodicTask_send env ((have_session_data, have_registration_data,
                           should_heartbeat_or_poll), s) =
     s\<lparr> calls := calls s @ (if \<not> have_session_data then [SM_HasSession] else [])
             @ (if \<not> have_session_data \<and> \<not> bool_answer env (calls s @ [SM_HasSession]) then []
                else if have_session_data \<or> have_registration_data \<or> should_heartbeat_or_poll
                then [NM_OutboundDataReady] else []) \<rparr>"
  by (simp add: PeriodicTask_send_def ask_bool_def call_def Let_def)

text \<open>
  C4. Take a tick that does not await the writeback. After the lock, the periodic check
  of the persistence manager and the check for exhausted sequence numbers, the history
  of the client's calls is \<open>h\<close>. The three flags are what the session manager answers to
  \<open>HasDataToSend\<close>, the registration manager to \<open>DoPeriodicRegistrationCheck\<close> and the
  network manager to \<open>HasDataToSend\<close>, asked in this order; \<open>has_session\<close> is what the
  session manager answers to \<open>HasSession\<close>, asked only when there is no session data.
  Then the tick makes exactly these calls: the three questions, \<open>HasSession\<close> if there is
  no session data, and \<open>NetworkManager::OutboundDataReady\<close>
  \<^item> not at all if there is no session data and no session;
  \<^item> otherwise once if one of the three flags holds, and not at all if none does;
  and in each case the last thing it does before releasing the lock is to reschedule
  \<open>PeriodicTask\<close>, once, with the delay that \<open>SmearDelay\<close> returns for
  \<open>periodic_task_interval\<close>. \<open>SmearDelay\<close> does return when the interval is between zero
  and \<open>2\<^sup>6\<^sup>1\<close> microseconds, the smear factor is a double in \<open>[0, 1]\<close> and the number
  drawn is in \<open>[0, 1]\<close>.
\<close>

theorem periodic_tick_sends_when_flagged:
  assumes "\<not> awaiting_seqno_writeback s"
    and "h = calls s @ [Lock_acquire, PM_DoPeriodicCheck, RM_current_op_seqno,
                        RM_maximum_op_seqno_inclusive]
               @ (if sint (int64_answer env
                      (calls s @ [Lock_acquire, PM_DoPeriodicCheck, RM_current_op_seqno]))
                     > sint (int64_answer env
                         (calls s @ [Lock_acquire, PM_DoPeriodicCheck, RM_current_op_seqno,
                                     RM_maximum_op_seqno_inclusive]))
                  then [Call_ForgetClientId] else [])"
    and "have_session_data = bool_answer env (h @ [SM_HasDataToSend])"
    and "have_registration_data =
           bool_answer env (h @ [SM_HasDataToSend, RM_DoPeriodicRegistrationCheck])"
    and "should_heartbeat_or_poll =
           bool_answer env (h @ [SM_HasDataToSend, RM_DoPeriodicRegistrationCheck,
                                 NM_HasDataToSend])"
    and "has_session =
           bool_answer env (h @ [SM_HasDataToSend, RM_DoPeriodicRegistrationCheck,
                                 NM_HasDataToSend, SM_HasSession])"
  shows "PeriodicTask env r s =
           and_then (SmearDelay (periodic_task_interval (config s)) (smear_factor (config s)) r)
             (\<lambda>smeared_delay.
                Inr (s\<lparr> calls :=
                       h @ [SM_HasDataToSend, RM_DoPeriodicRegistrationCheck, NM_HasDataToSend]
                         @ (if \<not> have_session_data then [SM_HasSession] else [])
                         @ (if \<not> have_session_data \<and> \<not> has_session then []
                            else if have_session_data \<or> have_registration_data
                                    \<or> should_heartbeat_or_poll
                            then [NM_OutboundDataReady] else [])
                         @ [ScheduleWithDelay smeared_delay PeriodicTask_task,
                            Lock_release] \<rparr>))
       \<and> (0 \<le> periodic_task_interval (config s) \<and> periodic_task_interval (config s) \<le> 2 ^ 61
            \<and> is_double (smear_factor (config s))
            \<and> 0 \<le> smear_factor (config s) \<and> smear_factor (config s) \<le> 1
            \<and> 0 \<le> r \<and> r \<le> 1 \<longrightarrow>
          (\<exists>smeared_delay.
             SmearDelay (periodic_task_interval (config s)) (smear_factor (config s)) r
               = Inr smeared_delay))"
proof (rule conjI)
  let ?s2 = "call PM_DoPeriodicCheck (call Lock_acquire s)"
  have c2: "calls ?s2 = calls s @ [Lock_acquire, PM_DoPeriodicCheck]"
    by (simp add: call_def)
  have checks: "PeriodicTask_checks env ?s2 =
      ((have_session_data, have_registration_data, should_heartbeat_or_poll),
       ?s2\<lparr> calls := h @ [SM_HasDataToSend, RM_DoPeriodicRegistrationCheck,
                          NM_HasDataToSend] \<rparr>)"
    unfolding PeriodicTask_checks_eq c2 assms(3-5) assms(2) by (simp add: Let_def)
  have send: "PeriodicTask_send env (PeriodicTask_checks env ?s2) =
      ?s2\<lparr> calls := h @ [SM_HasDataToSend, RM_DoPeriodicRegistrationCheck, NM_HasDataToSend]
                 @ (if \<not> have_session_data then [SM_HasSession] else [])
                 @ (if \<not> have_session_data \<and> \<not> has_session then []
                    else if have_session_data \<or> have_registration_data
                            \<or> should_heartbeat_or_poll
                    then [NM_OutboundDataReady] else []) \<rparr>"
    unfolding checks PeriodicTask_send_eq assms(6) by simp
  show "PeriodicTask env r s =
           and_then (SmearDelay (periodic_task_interval (config s)) (smear_factor (config s)) r)
             (\<lambda>smeared_delay.
                Inr (s\<lparr> calls :=
                       h @ [SM_HasDataToSend, RM_DoPeriodicRegistrationCheck, NM_HasDataToSend]
                         @ (if \<not> have_session_data then [SM_HasSession] else [])
                         @ (if \<not> have_session_data \<and> \<not> has_session then []
                            else if have_session_data \<or> have_registration_data
                                    \<or> should_heartbeat_or_poll
                            then [NM_OutboundDataReady] else [])
                         @ [ScheduleWithDelay smeared_delay PeriodicTask_task,
                            Lock_release] \<rparr>))"
    using assms(1)
    by (simp add: PeriodicTask_def Let_def call_simps send)
      (simp add: call_def and_then_def split: sum.splits)
next
  show "0 \<le> periodic_task_interval (config s) \<and> periodic_task_interval (config s) \<le> 2 ^ 61
            \<and> is_double (smear_factor (config s))
            \<and> 0 \<le> smear_factor (config s) \<and> smear_factor (config s) \<le> 1
            \<and> 0 \<le> r \<and> r \<le> 1 \<longrightarrow>
          (\<exists>smeared_delay.
             SmearDelay (periodic_task_interval (config s)) (smear_factor (config s)) r
               = Inr smeared_delay)"
    by (auto intro: SmearDelay_returns)
qed

text \<open>A client started without a state blob, with collaborators that answer yes to every
  question: its tick calls \<open>OutboundDataReady\<close> once and reschedules itself (half a
  second, smeared by the draw 0.75 to 0.55 seconds).\<close>

theorem periodic_tick_sends_when_flagged_witness:
  "\<not> awaiting_seqno_writeback (InvalidationClientImpl_new example_env example_config [])
   \<and> bool_answer example_env
        (calls (InvalidationClientImpl_new example_env example_config [])
           @ [Lock_acquire, PM_DoPeriodicCheck, RM_current_op_seqno,
              RM_maximum_op_seqno_inclusive, SM_HasDataToSend])
   \<and> PeriodicTask example_env (3 / 4) (InvalidationClientImpl_new example_env example_config [])
       = Inr \<lparr> config = example_config, awaiting_seqno_writeback = False,
               pending_invalidation_acks = [],
               calls = [Resources_current_time, SM_new [] [], RM_new 1,
                        RM_UpdateMaximumSeqno 50, ScheduleImmediately PeriodicTask_task,
                        Lock_acquire, PM_DoPeriodicCheck, RM_current_op_seqno,
                        RM_maximum_op_seqno_inclusive, SM_HasDataToSend,
                        RM_DoPeriodicRegistrationCheck, NM_HasDataToSend,
                        NM_OutboundDataReady,
                        ScheduleWithDelay 550000 PeriodicTask_task, Lock_release] \<rparr>"
proof -
  let ?s = "InvalidationClientImpl_new example_env example_config []"
  have s: "?s = \<lparr> config = example_config, awaiting_seqno_writeback = False,
               pending_invalidation_acks = [],
               calls = [Resources_current_time, SM_new [] [], RM_new 1,
                        RM_UpdateMaximumSeqno 50, ScheduleImmediately PeriodicTask_task] \<rparr>"
    by (simp add: InvalidationClientImpl_new_def ask_time_def call_def Let_def example_env_def
        example_config_def)
  have a: "\<not> awaiting_seqno_writeback ?s"
    by (simp add: s)
  have d: "SmearDelay (periodic_task_interval (config ?s)) (smear_factor (config ?s)) (3 / 4)
             = Inr 550000"
    unfolding s by (simp add: example_config_def SmearDelay_example)
  have b: "bool_answer example_env h" for h
    by (simp add: example_env_def)
  have i: "int64_answer example_env h = 7" for h
    by (simp add: example_env_def)
  from periodic_tick_sends_when_flagged [OF a refl refl refl refl refl, of example_env "3 / 4"]
  have "PeriodicTask example_env (3 / 4) ?s =
          Inr (?s\<lparr> calls := calls ?s @
                 [Lock_acquire, PM_DoPeriodicCheck, RM_current_op_seqno,
                  RM_maximum_op_seqno_inclusive, SM_HasDataToSend,
                  RM_DoPeriodicRegistrationCheck, NM_HasDataToSend, NM_OutboundDataReady,
                  ScheduleWithDelay 550000 PeriodicTask_task, Lock_release] \<rparr>)"
    by (simp add: d b i and_then_def)
  then have "PeriodicTask example_env (3 / 4) ?s
       = Inr \<lparr> config = example_config, awaiting_seqno_writeback = False,
               pending_invalidation_acks = [],
               calls = [Resources_current_time, SM_new [] [], RM_new 1,
                        RM_UpdateMaximumSeqno 50, ScheduleImmediately PeriodicTask_task,
                        Lock_acquire, PM_DoPeriodicCheck, RM_current_op_seqno,
                        RM_maximum_op_seqno_inclusive, SM_HasDataToSend,
                        RM_DoPeriodicRegistrationCheck, NM_HasDataToSend,
                        NM_OutboundDataReady,
                        ScheduleWithDelay 550000 PeriodicTask_task, Lock_release] \<rparr>"
    unfolding s by simp
  with a b show ?thesis
    by blast
qed

subsection \<open>Acknowledgements in the outbound message\<close>

lemma client_stamped_later:
  assumes "client_stamped env (h @ replicate j Resources_current_time) ack ack'"
  shows "client_stamped env h ack ack'"
proof (cases "component_stamp_log ack")
  case None
  with assms show ?thesis by (simp add: client_stamped_def)
next
  case (Some stamps)
  with assms obtain k where
    "ack' = ack\<lparr> component_stamp_log := Some (stamps @
                   [\<lparr> component = ''C'',
                      stamp_time =
                        tdiv (time_answer env ((h @ replicate j Resources_current_time)
                                @ replicate (Suc k) Resources_current_time))
                          kMicrosecondsPerMillisecond \<rparr>]) \<rparr>"
    by (auto simp: client_stamped_def)
  moreover have "(h @ replicate j Resources_current_time) @ replicate (Suc k) Resources_current_time
      = h @ replicate (Suc (j + k)) Resources_current_time"
    by (simp add: replicate_add [symmetric] del: replicate_Suc)
  ultimately show ?thesis
    using Some unfolding client_stamped_def by (auto simp del: replicate_Suc)
qed

lemma add_client_stamp_stamped:
  assumes "add_client_stamp env ack s = (ack', s')"
  shows "client_stamped env (calls s) ack ack'"
  using assms
  by (auto simp: add_client_stamp_def client_stamped_def ask_time_def Let_def
      split: option.splits intro: exI [of _ 0])

lemma take_rev_step:
  assumes "p \<noteq> []"
  shows "take (Suc n) (rev p) = last p # take n (rev (butlast p))"
proof -
  have "rev p = rev (butlast p @ [last p])"
    using assms by simp
  also have "\<dots> = last p # rev (butlast p)"
    by (simp only: rev_append rev.simps append_Nil append_Cons)
  finally show ?thesis
    by (simp only: take_Suc_Cons)
qed

lemma TakeOutboundMessage_acks_result:
  "TakeOutboundMessage_acks env rc sent (message, s) = (message', s') \<Longrightarrow>
     n = min (length (pending_invalidation_acks s))
           (nat (max_ops_per_message (config s) - (rc + sent))) \<Longrightarrow>
     pending_invalidation_acks s' =
        take (length (pending_invalidation_acks s) - n) (pending_invalidation_acks s)
     \<and> (\<exists>stamped. message' = message\<lparr> acked_invalidation := acked_invalidation message @ stamped \<rparr>
           \<and> list_all2 (client_stamped env (calls s))
                (take n (rev (pending_invalidation_acks s))) stamped)"
proof (induction env rc sent "(message, s)" arbitrary: message s n
    rule: TakeOutboundMessage_acks.induct)
  case (1 env rc sent message s)
  let ?p = "pending_invalidation_acks s"
  show ?case
  proof (cases "\<not> ?p = [] \<and> rc + sent < max_ops_per_message (config s)")
    case False
    then have "TakeOutboundMessage_acks env rc sent (message, s) = (message, s)"
      by (intro TakeOutboundMessage_acks_stop) auto
    moreover have "n = 0"
      using False "1.prems"(2) by auto
    ultimately show ?thesis
      using "1.prems"(1) by simp
  next
    case True
    obtain ack s1 where st: "add_client_stamp env (last ?p) s = (ack, s1)"
      by (cases "add_client_stamp env (last ?p) s")
    note fr = add_client_stamp_frame [OF st]
    let ?m1 = "message\<lparr> acked_invalidation := acked_invalidation message @ [ack] \<rparr>"
    let ?s2 = "s1\<lparr> pending_invalidation_acks := butlast (pending_invalidation_acks s1) \<rparr>"
    let ?n' = "min (length (pending_invalidation_acks ?s2))
                 (nat (max_ops_per_message (config ?s2) - (rc + (sent + 1))))"
    have rec: "TakeOutboundMessage_acks env rc (sent + 1) (?m1, ?s2) = (message', s')"
      using "1.prems"(1) TakeOutboundMessage_acks_step [of s rc sent env ack s1 message] True st
      by simp
    from "1.hyps" [OF True st [symmetric] refl refl refl rec refl]
    obtain stamped where ih:
      "pending_invalidation_acks s' =
         take (length (pending_invalidation_acks ?s2) - ?n') (pending_invalidation_acks ?s2)"
      "message' = ?m1\<lparr> acked_invalidation := acked_invalidation ?m1 @ stamped \<rparr>"
      "list_all2 (client_stamped env (calls ?s2))
         (take ?n' (rev (pending_invalidation_acks ?s2))) stamped"
      by blast
    have p2: "pending_invalidation_acks ?s2 = butlast ?p"
      using fr by simp
    have n: "n = Suc ?n'"
      using True "1.prems"(2) fr by (auto simp: min_def)
    have "take (length (butlast ?p) - ?n') (butlast ?p) = take (length ?p - n) ?p"
      using True n by (simp add: take_butlast)
    then have pend: "pending_invalidation_acks s' = take (length ?p - n) ?p"
      using ih(1) p2 by simp
    have first: "client_stamped env (calls s) (last ?p) ack"
      by (rule add_client_stamp_stamped [OF st])
    have "calls ?s2 = calls s @ replicate (if component_stamp_log (last ?p) = None then 0 else 1)
                                    Resources_current_time"
      using fr by simp
    then have rest: "list_all2 (client_stamped env (calls s))
         (take ?n' (rev (butlast ?p))) stamped"
      using ih(3) p2
      by (auto elim!: list_all2_mono intro: client_stamped_later simp del: replicate_Suc)
    have "take (Suc ?n') (rev ?p) = last ?p # take ?n' (rev (butlast ?p))"
      using True by (intro take_rev_step) simp
    then have "take n (rev ?p) = last ?p # take ?n' (rev (butlast ?p))"
      by (simp only: n)
    then have "list_all2 (client_stamped env (calls s)) (take n (rev ?p)) (ack # stamped)"
      using first rest by simp
    moreover have "message' = message\<lparr> acked_invalidation :=
                       acked_invalidation message @ (ack # stamped) \<rparr>"
      using ih(2) by simp
    ultimately show ?thesis
      using pend by blast
  qed
qed

lemma TakeOutboundMessage_object_control_result:
  assumes "TakeOutboundMessage_object_control env (message, s) = (message', s')"
  shows "(message_type message \<noteq> TYPE_OBJECT_CONTROL \<longrightarrow> message' = message \<and> s' = s)
       \<and> (message_type message = TYPE_OBJECT_CONTROL \<longrightarrow>
            (\<exists>hb s1 n stamped.
               hand_message env NM_AddHeartbeat (message, s) = (hb, s1)
             \<and> n = min (length (pending_invalidation_acks s))
                     (nat (max_ops_per_message (config s) - int (length (register_operation hb))))
             \<and> pending_invalidation_acks s' =
                 take (length (pending_invalidation_acks s) - n) (pending_invalidation_acks s)
             \<and> message' = hb\<lparr> acked_invalidation := acked_invalidation hb @ stamped \<rparr>
             \<and> list_all2 (client_stamped env (calls s1))
                  (take n (rev (pending_invalidation_acks s))) stamped
             \<and> (pending_invalidation_acks s' = []
                  \<or> max_ops_per_message (config s) \<le> int (length (register_operation hb)) + int n)))"
proof (rule conjI; rule impI)
  assume "message_type message \<noteq> TYPE_OBJECT_CONTROL"
  with assms show "message' = message \<and> s' = s"
    by (simp add: TakeOutboundMessage_object_control_def)
next
  assume oc: "message_type message = TYPE_OBJECT_CONTROL"
  obtain hb s1 where hb: "hand_message env NM_AddHeartbeat (message, s) = (hb, s1)"
    by (cases "hand_message env NM_AddHeartbeat (message, s)")
  have s1: "pending_invalidation_acks s1 = pending_invalidation_acks s" "config s1 = config s"
    using hand_message_simps(2,4) [of env NM_AddHeartbeat "(message, s)"] hb by simp_all
  let ?rc = "int (length (register_operation hb))"
  let ?n = "min (length (pending_invalidation_acks s))
              (nat (max_ops_per_message (config s) - ?rc))"
  have loop: "TakeOutboundMessage_acks env ?rc 0 (hb, s1) = (message', s')"
    using assms oc hb by (simp add: TakeOutboundMessage_object_control_def)
  from TakeOutboundMessage_acks_result [OF loop, of ?n]
  obtain stamped where r:
    "pending_invalidation_acks s' =
       take (length (pending_invalidation_acks s) - ?n) (pending_invalidation_acks s)"
    "message' = hb\<lparr> acked_invalidation := acked_invalidation hb @ stamped \<rparr>"
    "list_all2 (client_stamped env (calls s1))
       (take ?n (rev (pending_invalidation_acks s))) stamped"
    using s1 by auto
  have "pending_invalidation_acks s' = []
          \<or> max_ops_per_message (config s) \<le> ?rc + int ?n"
    using r(1) by (auto simp: min_def split: if_splits)
  with hb r show "\<exists>hb s1 n stamped.
               hand_message env NM_AddHeartbeat (message, s) = (hb, s1)
             \<and> n = min (length (pending_invalidation_acks s))
                     (nat (max_ops_per_message (config s) - int (length (register_operation hb))))
             \<and> pending_invalidation_acks s' =
                 take (length (pending_invalidation_acks s) - n) (pending_invalidation_acks s)
             \<and> message' = hb\<lparr> acked_invalidation := acked_invalidation hb @ stamped \<rparr>
             \<and> list_all2 (client_stamped env (calls s1))
                  (take n (rev (pending_invalidation_acks s))) stamped
             \<and> (pending_invalidation_acks s' = []
                  \<or> max_ops_per_message (config s) \<le> int (length (register_operation hb)) + int n)"
    by blast
qed

text \<open>
  C5. \<open>TakeOutboundMessage\<close>, called from an external thread. Let \<open>m2\<close> be the message
  as the session manager and (if the session manager set no type) the registration
  manager have left it.
  \<^item> If the type of \<open>m2\<close> is not \<open>TYPE_OBJECT_CONTROL\<close>, no acknowledgement is appended
    and the queue of pending acknowledgements stays as it is: \<open>m2\<close> itself is handed to
    \<open>FinalizeOutboundMessage\<close>, and what the network manager makes of it is checked and
    serialised.
  \<^item> If it is, the network manager adds its heartbeat, giving \<open>hb\<close>, and then the \<open>n\<close>
    newest pending acknowledgements are moved from the back of the queue to the end of
    the message, the newest first, where \<open>n\<close> is the smaller of the length of the queue
    and of \<open>max_ops_per_message\<close> minus the number of register operations in \<open>hb\<close> (zero
    if that is negative): the loop stops when the queue is empty or the register
    operations plus the acknowledgements reach \<open>max_ops_per_message\<close>. An acknowledgement
    without a component stamp log is copied as it is; one with a log gets one more stamp,
    of the component \<open>C\<close>, with a reading of the clock divided by 1000 (microseconds to
    milliseconds). The message so extended is the one handed to
    \<open>FinalizeOutboundMessage\<close>, and what the network manager makes of it is checked and
    serialised. The only calls of the loop are the readings of the clock.
\<close>

theorem acks_appended_newest_first:
  assumes "hand_message env SM_AddSessionAction
             (ClientToServerMessage_new env, call Lock_acquire s) = (m1, s1)"
    and "(if \<not> has_message_type m1 then hand_message env RM_AddOutboundData (m1, s1)
          else (m1, s1)) = (m2, s2)"
  shows "(message_type m2 \<noteq> TYPE_OBJECT_CONTROL \<longrightarrow>
            pending_invalidation_acks s2 = pending_invalidation_acks s
          \<and> TakeOutboundMessage env ExternalThread s =
              (case hand_message env NM_FinalizeOutboundMessage (m2, s2) of
                 (m4, s4) \<Rightarrow>
                   if has_message_type m4 \<and> has_client_type m4
                   then Inr (SerializeToString env m4, call Lock_release s4)
                   else Inl CheckFailed))
       \<and> (message_type m2 = TYPE_OBJECT_CONTROL \<longrightarrow>
            (\<exists>hb s3 n stamped s3' k.
               hand_message env NM_AddHeartbeat (m2, s2) = (hb, s3)
             \<and> n = min (length (pending_invalidation_acks s))
                     (nat (max_ops_per_message (config s) - int (length (register_operation hb))))
             \<and> list_all2 (client_stamped env (calls s3))
                  (take n (rev (pending_invalidation_acks s))) stamped
             \<and> pending_invalidation_acks s3' =
                 take (length (pending_invalidation_acks s) - n) (pending_invalidation_acks s)
             \<and> (pending_invalidation_acks s3' = []
                  \<or> max_ops_per_message (config s) \<le> int (length (register_operation hb)) + int n)
             \<and> calls s3' = calls s3 @ replicate k Resources_current_time
             \<and> config s3' = config s
             \<and> awaiting_seqno_writeback s3' = awaiting_seqno_writeback s
             \<and> TakeOutboundMessage env ExternalThread s =
                 (case hand_message env NM_FinalizeOutboundMessage
                         (hb\<lparr> acked_invalidation := acked_invalidation hb @ stamped \<rparr>, s3') of
                    (m4, s4) \<Rightarrow>
                      if has_message_type m4 \<and> has_client_type m4
                      then Inr (SerializeToString env m4, call Lock_release s4)
                      else Inl CheckFailed)))"
proof -
  have s1: "s1 = call SM_AddSessionAction (call Lock_acquire s)"
    using assms(1) by (simp add: hand_message_def)
  have frame2: "pending_invalidation_acks s2 = pending_invalidation_acks s"
    "config s2 = config s" "awaiting_seqno_writeback s2 = awaiting_seqno_writeback s"
    using assms(2) unfolding s1
    by (auto simp: hand_message_def call_def split: if_splits)
  have build: "TakeOutboundMessage_build env (call Lock_acquire s) =
      hand_message env NM_FinalizeOutboundMessage (TakeOutboundMessage_object_control env (m2, s2))"
    using assms(2) by (simp add: TakeOutboundMessage_build_def assms(1) Let_def)
  have run: "TakeOutboundMessage env ExternalThread s =
      (case hand_message env NM_FinalizeOutboundMessage
              (TakeOutboundMessage_object_control env (m2, s2)) of
         (m4, s4) \<Rightarrow>
           if has_message_type m4 \<and> has_client_type m4
           then Inr (SerializeToString env m4, call Lock_release s4)
           else Inl CheckFailed)"
    by (simp add: TakeOutboundMessage_def IsRunningOnInternalThread_def build
        split: prod.splits)
  show ?thesis
  proof (rule conjI; rule impI)
    assume "message_type m2 \<noteq> TYPE_OBJECT_CONTROL"
    then have "TakeOutboundMessage_object_control env (m2, s2) = (m2, s2)"
      by (simp add: TakeOutboundMessage_object_control_def)
    with run frame2(1)
    show "pending_invalidation_acks s2 = pending_invalidation_acks s
          \<and> TakeOutboundMessage env ExternalThread s =
              (case hand_message env NM_FinalizeOutboundMessage (m2, s2) of
                 (m4, s4) \<Rightarrow>
                   if has_message_type m4 \<and> has_client_type m4
                   then Inr (SerializeToString env m4, call Lock_release s4)
                   else Inl CheckFailed)"
      by simp
  next
    assume oc: "message_type m2 = TYPE_OBJECT_CONTROL"
    obtain m3 s3' where r: "TakeOutboundMessage_object_control env (m2, s2) = (m3, s3')"
      by (cases "TakeOutboundMessage_object_control env (m2, s2)")
    from TakeOutboundMessage_object_control_result [OF r] oc
    obtain hb s3 n stamped where res:
      "hand_message env NM_AddHeartbeat (m2, s2) = (hb, s3)"
      "n = min (length (pending_invalidation_acks s2))
             (nat (max_ops_per_message (config s2) - int (length (register_operation hb))))"
      "pending_invalidation_acks s3' =
         take (length (pending_invalidation_acks s2) - n) (pending_invalidation_acks s2)"
      "m3 = hb\<lparr> acked_invalidation := acked_invalidation hb @ stamped \<rparr>"
      "list_all2 (client_stamped env (calls s3))
         (take n (rev (pending_invalidation_acks s2))) stamped"
      "pending_invalidation_acks s3' = []
         \<or> max_ops_per_message (config s2) \<le> int (length (register_operation hb)) + int n"
      by blast
    have s3: "config s3 = config s2" "awaiting_seqno_writeback s3 = awaiting_seqno_writeback s2"
      using res(1) hand_message_simps(2,3) [of env NM_AddHeartbeat "(m2, s2)"] by simp_all
    have loop: "TakeOutboundMessage_acks env (int (length (register_operation hb))) 0 (hb, s3)
                  = (m3, s3')"
      using r oc res(1) by (simp add: TakeOutboundMessage_object_control_def)
    from TakeOutboundMessage_acks_frame [OF loop]
    obtain k where fr: "config s3' = config s3"
      "awaiting_seqno_writeback s3' = awaiting_seqno_writeback s3"
      "calls s3' = calls s3 @ replicate k Resources_current_time"
      by blast
    have fin: "TakeOutboundMessage env ExternalThread s =
                 (case hand_message env NM_FinalizeOutboundMessage
                         (hb\<lparr> acked_invalidation := acked_invalidation hb @ stamped \<rparr>, s3') of
                    (m4, s4) \<Rightarrow>
                      if has_message_type m4 \<and> has_client_type m4
                      then Inr (SerializeToString env m4, call Lock_release s4)
                      else Inl CheckFailed)"
      using run r res(4) by simp
    show "\<exists>hb s3 n stamped s3' k.
               hand_message env NM_AddHeartbeat (m2, s2) = (hb, s3)
             \<and> n = min (length (pending_invalidation_acks s))
                     (nat (max_ops_per_message (config s) - int (length (register_operation hb))))
             \<and> list_all2 (client_stamped env (calls s3))
                  (take n (rev (pending_invalidation_acks s))) stamped
             \<and> pending_invalidation_acks s3' =
                 take (length (pending_invalidation_acks s) - n) (pending_invalidation_acks s)
             \<and> (pending_invalidation_acks s3' = []
                  \<or> max_ops_per_message (config s) \<le> int (length (register_operation hb)) + int n)
             \<and> calls s3' = calls s3 @ replicate k Resources_current_time
             \<and> config s3' = config s
             \<and> awaiting_seqno_writeback s3' = awaiting_seqno_writeback s
             \<and> TakeOutboundMessage env ExternalThread s =
                 (case hand_message env NM_FinalizeOutboundMessage
                         (hb\<lparr> acked_invalidation := acked_invalidation hb @ stamped \<rparr>, s3') of
                    (m4, s4) \<Rightarrow>
                      if has_message_type m4 \<and> has_client_type m4
                      then Inr (SerializeToString env m4, call Lock_release s4)
                      else Inl CheckFailed)"
      using res(1,2,3,5,6) fr s3 fin unfolding frame2
      by (intro exI [of _ hb] exI [of _ s3] exI [of _ n] exI [of _ stamped] exI [of _ s3']
          exI [of _ k]) simp
  qed
qed

text \<open>Two acknowledgements are pending, the newer one with an (empty) stamp log; the
  registration manager leaves a message of type \<open>TYPE_OBJECT_CONTROL\<close> with one register
  operation, and \<open>max_ops_per_message\<close> is 2. The newer acknowledgement is moved to the
  message, stamped \<open>C\<close> at 25 milliseconds (the clock reads 25000 microseconds); the
  older one stays in the queue.\<close>

theorem acks_appended_newest_first_witness:
  "TakeOutboundMessage_build example_env
     (call Lock_acquire
        \<lparr> config = example_config, awaiting_seqno_writeback = False,
          pending_invalidation_acks =
            [\<lparr> object_id = example_oid, version = 1, payload = None, component_stamp_log = None \<rparr>,
             \<lparr> object_id = example_oid, version = 2, payload = None,
               component_stamp_log = Some [] \<rparr>],
          calls = [] \<rparr>)
   = (\<lparr> has_message_type = True, message_type = TYPE_OBJECT_CONTROL, has_client_type = True,
        register_operation =
          [\<lparr> op_object_id = example_oid, op_is_register = True, op_seqno = 1 \<rparr>],
        acked_invalidation =
          [\<lparr> object_id = example_oid, version = 2, payload = None,
             component_stamp_log = Some [\<lparr> component = ''C'', stamp_time = 25 \<rparr>] \<rparr>] \<rparr>,
      \<lparr> config = example_config, awaiting_seqno_writeback = False,
        pending_invalidation_acks =
          [\<lparr> object_id = example_oid, version = 1, payload = None, component_stamp_log = None \<rparr>],
        calls = [Lock_acquire, SM_AddSessionAction, RM_AddOutboundData, NM_AddHeartbeat,
                 Resources_current_time, NM_FinalizeOutboundMessage] \<rparr>)
   \<and> TakeOutboundMessage example_env ExternalThread
        \<lparr> config = example_config, awaiting_seqno_writeback = False,
          pending_invalidation_acks =
            [\<lparr> object_id = example_oid, version = 1, payload = None, component_stamp_log = None \<rparr>,
             \<lparr> object_id = example_oid, version = 2, payload = None,
               component_stamp_log = Some [] \<rparr>],
          calls = [] \<rparr>
     = Inr (''bytes'',
        \<lparr> config = example_config, awaiting_seqno_writeback = False,
          pending_invalidation_acks =
            [\<lparr> object_id = example_oid, version = 1, payload = None, component_stamp_log = None \<rparr>],
          calls = [Lock_acquire, SM_AddSessionAction, RM_AddOutboundData, NM_AddHeartbeat,
                   Resources_current_time, NM_FinalizeOutboundMessage, Lock_release] \<rparr>)"
proof -
  let ?s = "\<lparr> config = example_config, awaiting_seqno_writeback = False,
          pending_invalidation_acks =
            [\<lparr> object_id = example_oid, version = 1, payload = None, component_stamp_log = None \<rparr>,
             \<lparr> object_id = example_oid, version = 2, payload = None,
               component_stamp_log = Some [] \<rparr>],
          calls = [] \<rparr>"
  let ?m1 = "ClientToServerMessage_new example_env"
  let ?s1 = "?s\<lparr> calls := [Lock_acquire, SM_AddSessionAction] \<rparr>"
  let ?m2 = "\<lparr> has_message_type = True, message_type = TYPE_OBJECT_CONTROL,
               has_client_type = False,
               register_operation =
                 [\<lparr> op_object_id = example_oid, op_is_register = True, op_seqno = 1 \<rparr>],
               acked_invalidation = [] \<rparr>"
  let ?s2 = "?s\<lparr> calls := [Lock_acquire, SM_AddSessionAction, RM_AddOutboundData] \<rparr>"
  have h1: "hand_message example_env SM_AddSessionAction (?m1, call Lock_acquire ?s) = (?m1, ?s1)"
    by (simp add: hand_message_def call_def example_env_def)
  have h2: "(if \<not> has_message_type ?m1
             then hand_message example_env RM_AddOutboundData (?m1, ?s1) else (?m1, ?s1))
            = (?m2, ?s2)"
    by (simp add: hand_message_def call_def example_env_def ClientToServerMessage_new_def)
  have build: "TakeOutboundMessage_build example_env (call Lock_acquire ?s)
   = (\<lparr> has_message_type = True, message_type = TYPE_OBJECT_CONTROL, has_client_type = True,
        register_operation =
          [\<lparr> op_object_id = example_oid, op_is_register = True, op_seqno = 1 \<rparr>],
        acked_invalidation =
          [\<lparr> object_id = example_oid, version = 2, payload = None,
             component_stamp_log = Some [\<lparr> component = ''C'', stamp_time = 25 \<rparr>] \<rparr>] \<rparr>,
      \<lparr> config = example_config, awaiting_seqno_writeback = False,
        pending_invalidation_acks =
          [\<lparr> object_id = example_oid, version = 1, payload = None, component_stamp_log = None \<rparr>],
        calls = [Lock_acquire, SM_AddSessionAction, RM_AddOutboundData, NM_AddHeartbeat,
                 Resources_current_time, NM_FinalizeOutboundMessage] \<rparr>)"
    by (simp add: TakeOutboundMessage_build_def TakeOutboundMessage_object_control_def
        TakeOutboundMessage_acks.simps ClientToServerMessage_new_def
        hand_message_def add_client_stamp_def ask_time_def call_def Let_def example_env_def
        example_config_def tdiv_def kMicrosecondsPerMillisecond_def)
  have run: "TakeOutboundMessage example_env ExternalThread ?s
     = Inr (''bytes'',
        \<lparr> config = example_config, awaiting_seqno_writeback = False,
          pending_invalidation_acks =
            [\<lparr> object_id = example_oid, version = 1, payload = None, component_stamp_log = None \<rparr>],
          calls = [Lock_acquire, SM_AddSessionAction, RM_AddOutboundData, NM_AddHeartbeat,
                   Resources_current_time, NM_FinalizeOutboundMessage, Lock_release] \<rparr>)"
    by (simp add: TakeOutboundMessage_def IsRunningOnInternalThread_def build)
      (simp add: call_def example_env_def)
  from acks_appended_newest_first [OF h1 h2] build run show ?thesis
    by blast
qed

subsection \<open>Delivery and acknowledgement of invalidations\<close>

lemma ProcessInvalidation_eq:
  "ProcessInvalidation i s = s\<lparr> calls := calls s @ [ScheduleOnListenerThread (listener_delivery i)] \<rparr>"
  by (simp add: ProcessInvalidation_def listener_delivery_def INVALIDATE_ALL_OBJECT_NAME_def
      call_def Let_def)

lemma ProcessInvalidations_eq:
  "ProcessInvalidations is s =
     s\<lparr> calls := calls s @ map (\<lambda>i. ScheduleOnListenerThread (listener_delivery i)) is \<rparr>"
  by (induction "is" arbitrary: s) (simp_all add: ProcessInvalidation_eq)

lemma HandleObjectControl_eq:
  "HandleObjectControl bundle s =
     s\<lparr> calls := calls s @ RM_ProcessInboundMessage bundle
                  # map (\<lambda>i. ScheduleOnListenerThread (listener_delivery i)) (invalidation bundle) \<rparr>"
  by (simp add: HandleObjectControl_def ProcessInvalidations_eq call_def)

text \<open>
  C6. Processing an object-control bundle hands the bundle to the registration manager
  and then, for each invalidation in the order of the bundle, schedules one call on the
  listener thread: \<open>InvalidateAll(callback)\<close> if the object id has the source \<open>INTERNAL\<close>
  and the name \<open>ALL\<close>, and \<open>Invalidate(invalidation, callback)\<close> in every other case
  (\<open>listener_delivery\<close>). In both cases the callback, when invoked, schedules on the
  internal thread, to run immediately, the task \<open>AcknowledgeInvalidation\<close> of that
  invalidation; when the task runs, it pushes the invalidation at the back of
  \<open>pending_invalidation_acks_\<close> and calls \<open>NetworkManager::OutboundDataReady\<close>, under the
  lock.
\<close>

theorem invalidations_delivered_and_acknowledged:
  "ProcessInvalidation i s =
      s\<lparr> calls := calls s @ [ScheduleOnListenerThread
         (if source (object_id i) = ObjectId_Source_INTERNAL
             \<and> name_string_value (object_id i) = ''ALL''
          then Listener_InvalidateAll (ScheduleAcknowledgeInvalidation_callback i)
          else Listener_Invalidate i (ScheduleAcknowledgeInvalidation_callback i))] \<rparr>
   \<and> HandleObjectControl bundle s =
      s\<lparr> calls := calls s @ RM_ProcessInboundMessage bundle
                  # map (\<lambda>i. ScheduleOnListenerThread (listener_delivery i)) (invalidation bundle) \<rparr>
   \<and> AckCallback_Run (ScheduleAcknowledgeInvalidation_callback i) t =
      t\<lparr> calls := calls t @ [ScheduleImmediately (AcknowledgeInvalidation_task i)] \<rparr>
   \<and> Task_Run env r (AcknowledgeInvalidation_task i) u =
      Inr (u\<lparr> pending_invalidation_acks := pending_invalidation_acks u @ [i],
              calls := calls u @ [Lock_acquire, NM_OutboundDataReady, Lock_release] \<rparr>)"
proof (intro conjI)
  show "ProcessInvalidation i s =
      s\<lparr> calls := calls s @ [ScheduleOnListenerThread
         (if source (object_id i) = ObjectId_Source_INTERNAL
             \<and> name_string_value (object_id i) = ''ALL''
          then Listener_InvalidateAll (ScheduleAcknowledgeInvalidation_callback i)
          else Listener_Invalidate i (ScheduleAcknowledgeInvalidation_callback i))] \<rparr>"
    by (simp add: ProcessInvalidation_def INVALIDATE_ALL_OBJECT_NAME_def call_def Let_def)
  show "HandleObjectControl bundle s =
      s\<lparr> calls := calls s @ RM_ProcessInboundMessage bundle
                  # map (\<lambda>i. ScheduleOnListenerThread (listener_delivery i)) (invalidation bundle) \<rparr>"
    by (rule HandleObjectControl_eq)
  show "AckCallback_Run (ScheduleAcknowledgeInvalidation_callback i) t =
      t\<lparr> calls := calls t @ [ScheduleImmediately (AcknowledgeInvalidation_task i)] \<rparr>"
    by (simp add: ScheduleAcknowledgeInvalidation_def call_def)
  show "Task_Run env r (AcknowledgeInvalidation_task i) u =
      Inr (u\<lparr> pending_invalidation_acks := pending_invalidation_acks u @ [i],
              calls := calls u @ [Lock_acquire, NM_OutboundDataReady, Lock_release] \<rparr>)"
    by (simp add: AcknowledgeInvalidation_def call_def Let_def)
qed

text \<open>Scenario 4 of the specification and its neighbour: a bundle with the invalidation
  of the internal object \<open>ALL\<close> at version 42 and one of an object named \<open>ALL\<close> of another
  source. The first is delivered by \<open>InvalidateAll\<close>, the second by \<open>Invalidate\<close>.\<close>

theorem invalidations_delivered_and_acknowledged_witness:
  "calls (HandleObjectControl
     \<lparr> invalidation =
         [\<lparr> object_id = \<lparr> source = ObjectId_Source_INTERNAL, name_string_value = ''ALL'' \<rparr>,
            version = 42, payload = None, component_stamp_log = None \<rparr>,
          \<lparr> object_id = \<lparr> source = ObjectId_Source_other 4, name_string_value = ''ALL'' \<rparr>,
            version = 7, payload = None, component_stamp_log = None \<rparr>],
       other_fields = [] \<rparr>
     \<lparr> config = example_config, awaiting_seqno_writeback = False,
       pending_invalidation_acks = [], calls = [] \<rparr>)
   = [RM_ProcessInboundMessage
        \<lparr> invalidation =
         [\<lparr> object_id = \<lparr> source = ObjectId_Source_INTERNAL, name_string_value = ''ALL'' \<rparr>,
            version = 42, payload = None, component_stamp_log = None \<rparr>,
          \<lparr> object_id = \<lparr> source = ObjectId_Source_other 4, name_string_value = ''ALL'' \<rparr>,
            version = 7, payload = None, component_stamp_log = None \<rparr>],
          other_fields = [] \<rparr>,
      ScheduleOnListenerThread (Listener_InvalidateAll
        (ScheduleAcknowledgeInvalidation_callback
          \<lparr> object_id = \<lparr> source = ObjectId_Source_INTERNAL, name_string_value = ''ALL'' \<rparr>,
            version = 42, payload = None, component_stamp_log = None \<rparr>)),
      ScheduleOnListenerThread (Listener_Invalidate
          \<lparr> object_id = \<lparr> source = ObjectId_Source_other 4, name_string_value = ''ALL'' \<rparr>,
            version = 7, payload = None, component_stamp_log = None \<rparr>
        (ScheduleAcknowledgeInvalidation_callback
          \<lparr> object_id = \<lparr> source = ObjectId_Source_other 4, name_string_value = ''ALL'' \<rparr>,
            version = 7, payload = None, component_stamp_log = None \<rparr>))]"
  using invalidations_delivered_and_acknowledged
    [of "\<lparr> object_id = \<lparr> source = ObjectId_Source_INTERNAL, name_string_value = ''ALL'' \<rparr>,
            version = 42, payload = None, component_stamp_log = None \<rparr>"
        "\<lparr> config = example_config, awaiting_seqno_writeback = False,
           pending_invalidation_acks = [], calls = [] \<rparr>"
        "\<lparr> invalidation =
         [\<lparr> object_id = \<lparr> source = ObjectId_Source_INTERNAL, name_string_value = ''ALL'' \<rparr>,
            version = 42, payload = None, component_stamp_log = None \<rparr>,
          \<lparr> object_id = \<lparr> source = ObjectId_Source_other 4, name_string_value = ''ALL'' \<rparr>,
            version = 7, payload = None, component_stamp_log = None \<rparr>],
          other_fields = [] \<rparr>"]
  by (simp add: listener_delivery_def)

subsection \<open>Inbound messages\<close>

lemma HandleNewSession_calls:
  "\<exists>blob. calls (HandleNewSession env s) =
      calls s @ [SM_client_uniquifier, RM_HandleNewSession, NM_RecordImplicitHeartbeat,
                 SM_client_uniquifier, SM_session_token, RM_maximum_op_seqno_inclusive,
                 PM_WriteState blob HandleBestEffortWrite_callback,
                 ScheduleOnListenerThread (Listener_SessionStatusChanged True)]"
  by (simp add: HandleNewSession_def ask_string_def ask_int64_def call_def Let_def)

lemma HandleLostSession_calls:
  "calls (HandleLostSession s) =
      calls s @ [RM_HandleLostSession,
                 ScheduleOnListenerThread (Listener_SessionStatusChanged False)]"
  by (simp add: HandleLostSession_def call_def)

text \<open>The calls of \<open>HandleInboundMessage\<close> when no writeback is awaited: the lock, the
  classification by the session manager, the calls \<open>mid\<close> of the handler of the action
  and, unless the message is ignored, \<open>NetworkManager::HandleInboundMessage\<close>.\<close>

lemma HandleInboundMessage_calls:
  assumes "\<not> awaiting_seqno_writeback s"
    and "bundle = ParseFromString env message"
    and "action = action_answer env (calls s @ [Lock_acquire, SM_ProcessMessage bundle])"
  shows "\<exists>s' mid. HandleInboundMessage env ExternalThread message s = Inr s'
           \<and> calls s' = calls s @ [Lock_acquire, SM_ProcessMessage bundle] @ mid
                @ (if action = IGNORE_MESSAGE \<or> (\<exists>n. action = Unrecognized_action n) then []
                   else [NM_HandleInboundMessage bundle])
                @ [Lock_release]
           \<and> (action = IGNORE_MESSAGE \<or> (\<exists>n. action = Unrecognized_action n) \<longrightarrow> mid = [])
           \<and> Lock_acquire \<notin> set mid \<and> Lock_release \<notin> set mid
           \<and> (\<forall>b. NM_HandleInboundMessage b \<notin> set mid)"
proof -
  let ?s2 = "call (SM_ProcessMessage bundle) (call Lock_acquire s)"
  have unfold: "HandleInboundMessage env ExternalThread message s =
    (case action of
       IGNORE_MESSAGE \<Rightarrow> Inr (call Lock_release ?s2)
     | ACQUIRE_SESSION \<Rightarrow>
         Inr (call Lock_release (call (NM_HandleInboundMessage bundle) (HandleNewSession env ?s2)))
     | LOSE_CLIENT_ID \<Rightarrow>
         Inr (call Lock_release (call (NM_HandleInboundMessage bundle) (ForgetClientId ?s2)))
     | LOSE_SESSION \<Rightarrow>
         Inr (call Lock_release (call (NM_HandleInboundMessage bundle) (HandleLostSession ?s2)))
     | PROCESS_OBJECT_CONTROL \<Rightarrow>
         Inr (call Lock_release
                (call (NM_HandleInboundMessage bundle) (HandleObjectControl bundle ?s2)))
     | Unrecognized_action n \<Rightarrow> Inr (call Lock_release ?s2))"
    unfolding assms(3) assms(2) using assms(1)
    by (simp add: HandleInboundMessage_def IsRunningOnInternalThread_def ask_action_def
        call_simps Let_def)
  have fin: "\<And>s' mid. HandleInboundMessage env ExternalThread message s = Inr s' \<Longrightarrow>
      calls s' = calls s @ [Lock_acquire, SM_ProcessMessage bundle] @ mid
                @ (if action = IGNORE_MESSAGE \<or> (\<exists>n. action = Unrecognized_action n) then []
                   else [NM_HandleInboundMessage bundle])
                @ [Lock_release] \<Longrightarrow>
      (action = IGNORE_MESSAGE \<or> (\<exists>n. action = Unrecognized_action n) \<longrightarrow> mid = []) \<Longrightarrow>
      Lock_acquire \<notin> set mid \<Longrightarrow> Lock_release \<notin> set mid \<Longrightarrow>
      (\<forall>b. NM_HandleInboundMessage b \<notin> set mid) \<Longrightarrow> ?thesis"
    by blast
  show ?thesis
  proof (cases action)
    case IGNORE_MESSAGE
    then show ?thesis
      by (intro fin [where mid = "[]" and s' = "call Lock_release ?s2"])
        (simp_all add: unfold call_simps)
  next
    case ACQUIRE_SESSION
    obtain blob where "calls (HandleNewSession env ?s2) =
      calls ?s2 @ [SM_client_uniquifier, RM_HandleNewSession, NM_RecordImplicitHeartbeat,
                 SM_client_uniquifier, SM_session_token, RM_maximum_op_seqno_inclusive,
                 PM_WriteState blob HandleBestEffortWrite_callback,
                 ScheduleOnListenerThread (Listener_SessionStatusChanged True)]"
      using HandleNewSession_calls by blast
    with ACQUIRE_SESSION show ?thesis
      by (intro fin [where mid = "[SM_client_uniquifier, RM_HandleNewSession,
                 NM_RecordImplicitHeartbeat,
                 SM_client_uniquifier, SM_session_token, RM_maximum_op_seqno_inclusive,
                 PM_WriteState blob HandleBestEffortWrite_callback,
                 ScheduleOnListenerThread (Listener_SessionStatusChanged True)]"
            and s' = "call Lock_release
                        (call (NM_HandleInboundMessage bundle) (HandleNewSession env ?s2))"])
        (simp_all add: unfold call_simps)
  next
    case LOSE_CLIENT_ID
    then show ?thesis
      by (intro fin [where mid = "[Call_ForgetClientId]"
            and s' = "call Lock_release
                        (call (NM_HandleInboundMessage bundle) (ForgetClientId ?s2))"])
        (simp_all add: unfold call_simps ForgetClientId_def)
  next
    case LOSE_SESSION
    then show ?thesis
      by (intro fin [where mid = "[RM_HandleLostSession,
                 ScheduleOnListenerThread (Listener_SessionStatusChanged False)]"
            and s' = "call Lock_release
                        (call (NM_HandleInboundMessage bundle) (HandleLostSession ?s2))"])
        (simp_all add: unfold call_simps HandleLostSession_calls)
  next
    case PROCESS_OBJECT_CONTROL
    then show ?thesis
      by (intro fin [where mid = "RM_ProcessInboundMessage bundle
                  # map (\<lambda>i. ScheduleOnListenerThread (listener_delivery i)) (invalidation bundle)"
            and s' = "call Lock_release
                        (call (NM_HandleInboundMessage bundle) (HandleObjectControl bundle ?s2))"])
        (auto simp: unfold call_simps HandleObjectControl_eq)
  next
    case (Unrecognized_action n)
    then show ?thesis
      by (intro fin [where mid = "[]" and s' = "call Lock_release ?s2"])
        (simp_all add: unfold call_simps)
  qed
qed

text \<open>
  C10. Take an inbound message handled on an external thread while no writeback is
  awaited, and let \<open>action\<close> be what the session manager classifies it as.
  \<^item> If \<open>action\<close> is \<open>IGNORE_MESSAGE\<close> or no enumerator of \<open>MessageAction\<close>,
    \<open>HandleInboundMessage\<close> returns after the classification: between taking and
    releasing the lock its only call is \<open>SessionManager::ProcessMessage\<close>, so nothing is
    asked of the network manager and no member of the client changes.
  \<^item> If \<open>action\<close> is \<open>ACQUIRE_SESSION\<close>, \<open>LOSE_CLIENT_ID\<close>, \<open>LOSE_SESSION\<close> or
    \<open>PROCESS_OBJECT_CONTROL\<close>, the handler of the action runs and then
    \<open>NetworkManager::HandleInboundMessage\<close> is called with the bundle, once, as the last
    call before the lock is released.
\<close>

theorem ignored_message_leaves_network_manager:
  assumes "\<not> awaiting_seqno_writeback s"
    and "bundle = ParseFromString env message"
    and "action = action_answer env (calls s @ [Lock_acquire, SM_ProcessMessage bundle])"
  shows "(action = IGNORE_MESSAGE \<or> (\<exists>n. action = Unrecognized_action n) \<longrightarrow>
            HandleInboundMessage env ExternalThread message s =
              Inr (s\<lparr> calls := calls s @ [Lock_acquire, SM_ProcessMessage bundle, Lock_release] \<rparr>))
       \<and> (action \<in> {ACQUIRE_SESSION, LOSE_CLIENT_ID, LOSE_SESSION, PROCESS_OBJECT_CONTROL} \<longrightarrow>
            (\<exists>s' mid. HandleInboundMessage env ExternalThread message s = Inr s'
               \<and> calls s' = calls s @ [Lock_acquire, SM_ProcessMessage bundle] @ mid
                    @ [NM_HandleInboundMessage bundle, Lock_release]
               \<and> (\<forall>b. NM_HandleInboundMessage b \<notin> set mid)))"
proof (rule conjI; rule impI)
  assume "action = IGNORE_MESSAGE \<or> (\<exists>n. action = Unrecognized_action n)"
  then show "HandleInboundMessage env ExternalThread message s =
              Inr (s\<lparr> calls := calls s @ [Lock_acquire, SM_ProcessMessage bundle, Lock_release] \<rparr>)"
    using assms
    by (auto simp: HandleInboundMessage_def IsRunningOnInternalThread_def ask_action_def
        call_def Let_def)
next
  assume a: "action \<in> {ACQUIRE_SESSION, LOSE_CLIENT_ID, LOSE_SESSION, PROCESS_OBJECT_CONTROL}"
  then have "\<not> (action = IGNORE_MESSAGE \<or> (\<exists>n. action = Unrecognized_action n))"
    by auto
  with HandleInboundMessage_calls [OF assms]
  show "\<exists>s' mid. HandleInboundMessage env ExternalThread message s = Inr s'
               \<and> calls s' = calls s @ [Lock_acquire, SM_ProcessMessage bundle] @ mid
                    @ [NM_HandleInboundMessage bundle, Lock_release]
               \<and> (\<forall>b. NM_HandleInboundMessage b \<notin> set mid)"
    by auto
qed

text \<open>With the session manager of the example, which ignores every message, the client
  started without a state blob asks nothing of the network manager.\<close>

theorem ignored_message_leaves_network_manager_witness:
  "\<not> awaiting_seqno_writeback (InvalidationClientImpl_new example_env example_config [])
   \<and> action_answer example_env
        (calls (InvalidationClientImpl_new example_env example_config [])
           @ [Lock_acquire, SM_ProcessMessage (ParseFromString example_env ''m'')])
       = IGNORE_MESSAGE
   \<and> HandleInboundMessage example_env ExternalThread ''m''
        (InvalidationClientImpl_new example_env example_config [])
       = Inr \<lparr> config = example_config, awaiting_seqno_writeback = False,
               pending_invalidation_acks = [],
               calls = [Resources_current_time, SM_new [] [], RM_new 1,
                        RM_UpdateMaximumSeqno 50,
                        ScheduleImmediately PeriodicTask_task,
                        Lock_acquire,
                        SM_ProcessMessage \<lparr> invalidation = [], other_fields = ''m'' \<rparr>,
                        Lock_release] \<rparr>"
proof -
  let ?s = "InvalidationClientImpl_new example_env example_config []"
  have s: "?s = \<lparr> config = example_config, awaiting_seqno_writeback = False,
               pending_invalidation_acks = [],
               calls = [Resources_current_time, SM_new [] [], RM_new 1,
                        RM_UpdateMaximumSeqno 50,
                        ScheduleImmediately PeriodicTask_task] \<rparr>"
    by (simp add: InvalidationClientImpl_new_def ask_time_def call_def Let_def example_env_def
        example_config_def)
  have a: "\<not> awaiting_seqno_writeback ?s"
    by (simp add: s)
  have act: "action_answer example_env
        (calls ?s @ [Lock_acquire, SM_ProcessMessage (ParseFromString example_env ''m'')])
       = IGNORE_MESSAGE"
    by (simp add: example_env_def)
  have p: "ParseFromString example_env ''m'' = \<lparr> invalidation = [], other_fields = ''m'' \<rparr>"
    by (simp add: example_env_def)
  from ignored_message_leaves_network_manager [OF a refl refl, of example_env "''m''"] act
  have "HandleInboundMessage example_env ExternalThread ''m'' ?s =
          Inr (?s\<lparr> calls := calls ?s @
                  [Lock_acquire, SM_ProcessMessage (ParseFromString example_env ''m''),
                   Lock_release] \<rparr>)"
    by simp
  then have "HandleInboundMessage example_env ExternalThread ''m'' ?s
       = Inr \<lparr> config = example_config, awaiting_seqno_writeback = False,
               pending_invalidation_acks = [],
               calls = [Resources_current_time, SM_new [] [], RM_new 1,
                        RM_UpdateMaximumSeqno 50,
                        ScheduleImmediately PeriodicTask_task,
                        Lock_acquire,
                        SM_ProcessMessage \<lparr> invalidation = [], other_fields = ''m'' \<rparr>,
                        Lock_release] \<rparr>"
    unfolding p by (simp add: s)
  with a act show ?thesis
    by blast
qed

subsection \<open>The thread check and the lock\<close>

lemma TakeOutboundMessage_object_control_calls:
  assumes "TakeOutboundMessage_object_control env ms = (message', s')"
  shows "\<exists>mid. calls s' = calls (snd ms) @ mid
           \<and> set mid \<subseteq> {NM_AddHeartbeat, Resources_current_time}"
proof (cases "message_type (fst ms) = TYPE_OBJECT_CONTROL")
  case False
  with assms show ?thesis
    by (intro exI [of _ "[]"]) (simp add: TakeOutboundMessage_object_control_def)
next
  case True
  let ?hb = "hand_message env NM_AddHeartbeat ms"
  have "TakeOutboundMessage_acks env (int (length (register_operation (fst ?hb)))) 0
          (fst ?hb, snd ?hb) = (message', s')"
    using assms True
    by (simp add: TakeOutboundMessage_object_control_def Let_def split: prod.splits)
  from TakeOutboundMessage_acks_frame [OF this]
  obtain m where "calls s' = calls (snd ?hb) @ replicate m Resources_current_time"
    by blast
  then have "calls s' = calls (snd ms) @ (NM_AddHeartbeat # replicate m Resources_current_time)"
    by (simp add: hand_message_simps)
  then show ?thesis
    by (intro exI [of _ "NM_AddHeartbeat # replicate m Resources_current_time"]) auto
qed

lemma TakeOutboundMessage_build_calls:
  assumes "TakeOutboundMessage_build env s = (message', s')"
  shows "\<exists>mid. calls s' = calls s @ mid \<and> Lock_acquire \<notin> set mid \<and> Lock_release \<notin> set mid"
proof -
  let ?ms1 = "hand_message env SM_AddSessionAction (ClientToServerMessage_new env, s)"
  let ?ms2 = "if \<not> has_message_type (fst ?ms1) then hand_message env RM_AddOutboundData ?ms1
              else ?ms1"
  let ?ms3 = "TakeOutboundMessage_object_control env ?ms2"
  let ?m2 = "SM_AddSessionAction
               # (if \<not> has_message_type (fst ?ms1) then [RM_AddOutboundData] else [])"
  have c2: "calls (snd ?ms2) = calls s @ ?m2"
    by (simp add: hand_message_simps)
  obtain mid where mid: "calls (snd ?ms3) = calls (snd ?ms2) @ mid"
    "set mid \<subseteq> {NM_AddHeartbeat, Resources_current_time}"
    using TakeOutboundMessage_object_control_calls [of env ?ms2 "fst ?ms3" "snd ?ms3"]
    by auto
  have "s' = snd (hand_message env NM_FinalizeOutboundMessage ?ms3)"
    using assms by (simp add: TakeOutboundMessage_build_def Let_def)
  then have "calls s' = calls s @ (?m2 @ mid @ [NM_FinalizeOutboundMessage])"
    using c2 mid(1) by (simp add: hand_message_simps)
  moreover have "Lock_acquire \<notin> set (?m2 @ mid @ [NM_FinalizeOutboundMessage])"
    "Lock_release \<notin> set (?m2 @ mid @ [NM_FinalizeOutboundMessage])"
    using mid(2) by auto
  ultimately show ?thesis
    by blast
qed

lemma TakeOutboundMessage_locked:
  "TakeOutboundMessage env ExternalThread s = Inl CheckFailed
   \<or> (\<exists>bytes s' mid. TakeOutboundMessage env ExternalThread s = Inr (bytes, s')
         \<and> calls s' = calls s @ [Lock_acquire] @ mid @ [Lock_release]
         \<and> Lock_acquire \<notin> set mid \<and> Lock_release \<notin> set mid)"
proof -
  obtain message s1 where b: "TakeOutboundMessage_build env (call Lock_acquire s) = (message, s1)"
    by (cases "TakeOutboundMessage_build env (call Lock_acquire s)")
  from TakeOutboundMessage_build_calls [OF b]
  obtain mid where mid: "calls s1 = calls s @ [Lock_acquire] @ mid"
    "Lock_acquire \<notin> set mid" "Lock_release \<notin> set mid"
    by (auto simp: call_simps)
  show ?thesis
  proof (cases "has_message_type message \<and> has_client_type message")
    case False
    then have "TakeOutboundMessage env ExternalThread s = Inl CheckFailed"
      using b by (auto simp: TakeOutboundMessage_def IsRunningOnInternalThread_def)
    then show ?thesis by simp
  next
    case True
    then have "TakeOutboundMessage env ExternalThread s =
                 Inr (SerializeToString env message, call Lock_release s1)"
      using b by (simp add: TakeOutboundMessage_def IsRunningOnInternalThread_def)
    moreover have "calls (call Lock_release s1) = calls s @ [Lock_acquire] @ mid @ [Lock_release]"
      using mid(1) by (simp add: call_simps)
    ultimately show ?thesis
      using mid(2,3) by blast
  qed
qed

lemma HandleInboundMessage_locked:
  "\<exists>s' mid. HandleInboundMessage env ExternalThread message s = Inr s'
      \<and> calls s' = calls s @ [Lock_acquire] @ mid @ [Lock_release]
      \<and> Lock_acquire \<notin> set mid \<and> Lock_release \<notin> set mid"
proof (cases "awaiting_seqno_writeback s")
  case True
  then show ?thesis
    by (intro exI [of _ "s\<lparr> calls := calls s @ [Lock_acquire, Lock_release] \<rparr>"] exI [of _ "[]"])
      (simp add: HandleInboundMessage_awaiting)
next
  case False
  from HandleInboundMessage_calls [OF False refl refl, of env message]
  obtain s' mid where r: "HandleInboundMessage env ExternalThread message s = Inr s'"
    "calls s' = calls s @ [Lock_acquire, SM_ProcessMessage (ParseFromString env message)] @ mid
       @ (if action_answer env (calls s @ [Lock_acquire,
                SM_ProcessMessage (ParseFromString env message)]) = IGNORE_MESSAGE
             \<or> (\<exists>n. action_answer env (calls s @ [Lock_acquire,
                SM_ProcessMessage (ParseFromString env message)]) = Unrecognized_action n)
          then [] else [NM_HandleInboundMessage (ParseFromString env message)])
       @ [Lock_release]"
    "Lock_acquire \<notin> set mid" "Lock_release \<notin> set mid"
    by blast
  let ?mid = "SM_ProcessMessage (ParseFromString env message) # mid
       @ (if action_answer env (calls s @ [Lock_acquire,
                SM_ProcessMessage (ParseFromString env message)]) = IGNORE_MESSAGE
             \<or> (\<exists>n. action_answer env (calls s @ [Lock_acquire,
                SM_ProcessMessage (ParseFromString env message)]) = Unrecognized_action n)
          then [] else [NM_HandleInboundMessage (ParseFromString env message)])"
  have "calls s' = calls s @ [Lock_acquire] @ ?mid @ [Lock_release]"
    using r(2) by simp
  moreover have "Lock_acquire \<notin> set ?mid" "Lock_release \<notin> set ?mid"
    using r(3,4) by auto
  ultimately show ?thesis
    using r(1) by blast
qed

text \<open>
  C9. For each of the six functions of the public interface (\<open>Register\<close>, \<open>Unregister\<close>,
  \<open>PermanentShutdown\<close>, \<open>HandleInboundMessage\<close>, \<open>TakeOutboundMessage\<close>,
  \<open>RegisterOutboundListener\<close>; the entries with a \<open>caller_thread\<close>):
  \<^item> called on the internal thread, it fails its \<open>CHECK\<close> before anything else happens;
  \<^item> called on an external thread, it takes the lock first and releases it last: all its
    calls on collaborators lie between the two, and the lock is taken once. Only
    \<open>TakeOutboundMessage\<close> can fail then, in its final \<open>CHECK\<close>s on the message.
\<close>

theorem public_interface_checks_thread_and_locks:
  "(caller_thread e = Some InternalThread \<longrightarrow> enter env e s = Inl CheckFailed)
   \<and> (caller_thread e = Some ExternalThread \<longrightarrow>
        ((\<exists>thread. e = Enter_TakeOutboundMessage thread) \<and> enter env e s = Inl CheckFailed)
        \<or> (\<exists>s' mid. enter env e s = Inr s'
              \<and> calls s' = calls s @ [Lock_acquire] @ mid @ [Lock_release]
              \<and> Lock_acquire \<notin> set mid \<and> Lock_release \<notin> set mid))"
proof (cases e)
  case (Enter_Register thread oid)
  then show ?thesis
    by (auto simp: Register_def IsRunningOnInternalThread_def call_simps
        intro!: exI [of _ "[RM_Register oid]"])
next
  case (Enter_Unregister thread oid)
  then show ?thesis
    by (auto simp: Unregister_def IsRunningOnInternalThread_def call_simps
        intro!: exI [of _ "[RM_Unregister oid]"])
next
  case (Enter_PermanentShutdown thread)
  then show ?thesis
    by (auto simp: PermanentShutdown_def IsRunningOnInternalThread_def call_simps
        intro!: exI [of _ "[SM_Shutdown]"])
next
  case (Enter_HandleInboundMessage thread message)
  show ?thesis
  proof (cases thread)
    case InternalThread
    then show ?thesis
      using Enter_HandleInboundMessage
      by (simp add: HandleInboundMessage_def IsRunningOnInternalThread_def)
  next
    case ExternalThread
    then show ?thesis
      using Enter_HandleInboundMessage HandleInboundMessage_locked [of env message s]
      by simp
  qed
next
  case (Enter_TakeOutboundMessage thread)
  show ?thesis
  proof (cases thread)
    case InternalThread
    then show ?thesis
      using Enter_TakeOutboundMessage
      by (simp add: TakeOutboundMessage_def IsRunningOnInternalThread_def and_then_def)
  next
    case ExternalThread
    then show ?thesis
      using Enter_TakeOutboundMessage TakeOutboundMessage_locked [of env s]
      by (auto simp: and_then_def)
  qed
next
  case (Enter_RegisterOutboundListener thread l)
  then show ?thesis
    by (auto simp: RegisterOutboundListener_def IsRunningOnInternalThread_def call_simps
        intro!: exI [of _ "[NM_RegisterOutboundListener l]"])
qed simp_all

text \<open>\<open>Register\<close> on the example client: from the internal thread the \<open>CHECK\<close> fails; from
  an external thread the registration manager is called under the lock.\<close>

theorem public_interface_checks_thread_and_locks_witness:
  "caller_thread (Enter_Register InternalThread example_oid) = Some InternalThread
   \<and> enter example_env (Enter_Register InternalThread example_oid)
        \<lparr> config = example_config, awaiting_seqno_writeback = False,
          pending_invalidation_acks = [], calls = [] \<rparr> = Inl CheckFailed
   \<and> caller_thread (Enter_Register ExternalThread example_oid) = Some ExternalThread
   \<and> enter example_env (Enter_Register ExternalThread example_oid)
        \<lparr> config = example_config, awaiting_seqno_writeback = False,
          pending_invalidation_acks = [], calls = [] \<rparr>
       = Inr \<lparr> config = example_config, awaiting_seqno_writeback = False,
               pending_invalidation_acks = [],
               calls = [Lock_acquire, RM_Register example_oid, Lock_release] \<rparr>"
  using public_interface_checks_thread_and_locks
    [of "Enter_Register InternalThread example_oid" example_env
        "\<lparr> config = example_config, awaiting_seqno_writeback = False,
           pending_invalidation_acks = [], calls = [] \<rparr>"]
    public_interface_checks_thread_and_locks
    [of "Enter_Register ExternalThread example_oid" example_env
        "\<lparr> config = example_config, awaiting_seqno_writeback = False,
           pending_invalidation_acks = [], calls = [] \<rparr>"]
  by (simp add: Register_def IsRunningOnInternalThread_def call_def)

end
